theory Spec2Isabelle
  imports
    Main
    "HOL-Library.Word"
    "HOL-Library.Signed_Division"
begin

unbundle bit_operations_syntax

section \<open>The reinforcement-learning navigation sketch of the hospital robot\<close>

text \<open>
  The sketch runs on a Zumo32U4 (ATmega32U4): \<open>int\<close> is 16 bits wide there, so every
  C expression of the sketch is evaluated on 16-bit words after the integer promotions,
  \<open>unsigned long\<close> is 32 bits wide. Stored values keep their declared width:
  \<open>int8_t\<close> and \<open>uint8_t\<close> are \<open>8 word\<close>, \<open>int16_t\<close> and \<open>uint16_t\<close> are
  \<open>16 word\<close>; \<open>sint\<close> reads the signed ones, \<open>unat\<close> the unsigned ones.

  The hardware collaborators are inputs of the model: the calibrated sensor readings,
  the two encoder counts, the values drawn by \<open>random()\<close> and the values read from
  \<open>millis()\<close>. Motor commands, the buzzer, the LCD and the serial text are not part of
  the state; the one serial message a property depends on, the reason printed by
  \<open>checkEnd\<close>, is the value that function returns.
\<close>

subsection \<open>C arithmetic on a 16-bit int\<close>

text \<open>Signed division of two \<open>int\<close>s truncates towards zero.\<close>

definition c_sdiv :: "16 word \<Rightarrow> 16 word \<Rightarrow> 16 word" where
  "c_sdiv a b = word_of_int (sint a sdiv sint b)"

text \<open>\<open>abs\<close> on an \<open>int\<close>.\<close>

definition c_abs :: "16 word \<Rightarrow> 16 word" where
  "c_abs x = (if x <s 0 then - x else x)"

text \<open>\<open>random(howbig)\<close> of the Arduino core, from the raw value \<open>raw\<close> that \<open>random()\<close>
  draws: a value in \<open>[0, howbig)\<close>.\<close>

definition random_max :: "nat \<Rightarrow> nat \<Rightarrow> nat" where
  "random_max raw howbig = (if howbig = 0 then 0 else raw mod howbig)"

subsection \<open>Constants and tables\<close>

definition NUM_SENSORS :: nat where "NUM_SENSORS = 5"
definition NUM_LINE_STATES :: nat where "NUM_LINE_STATES = 8"
definition NUM_SEGMENTS :: nat where "NUM_SEGMENTS = 10"
definition NUM_ACTIONS :: nat where "NUM_ACTIONS = 5"
definition Q_TABLE_SIZE :: nat where "Q_TABLE_SIZE = 80"

definition EPS_MIN :: "8 word" where "EPS_MIN = 13"
definition EPS_DECAY :: "8 word" where "EPS_DECAY = 253"

definition SEG_DIST :: "16 word list" where
  "SEG_DIST = [0, 600, 1400, 2200, 3000, 3600, 4400, 5200, 6000, 6800]"

definition TASK_LOCS :: "8 word list" where
  "TASK_LOCS = [5, 2, 3, 7, 8]"

subsection \<open>The global variables\<close>

text \<open>
  \<open>Q\<close> is the array \<open>int8_t Q[80][5]\<close>, a list of 80 rows of 5 entries.
  \<open>lostCount\<close> is the static local variable of \<open>checkEnd\<close>.
\<close>

record robot =
  Q :: "8 word list list"
  sensorVals :: "16 word list"
  alpha :: "8 word"
  gamma_d :: "8 word"
  epsilon :: "8 word"
  curSegment :: "8 word"
  curLineState :: "8 word"
  curAction :: "8 word"
  totalDist :: "16 word"
  episodeReward :: "16 word"
  bestReward :: "16 word"
  episode :: "8 word"
  tasksComplete :: "8 word"
  taskFlags :: "8 word"
  running :: bool
  calibrated :: bool
  crossings :: "8 word"
  startTime :: "32 word"
  centered :: "16 word"
  readings :: "16 word"
  lostCount :: "16 word"

text \<open>The variables as their initialisers and \<open>memset(Q, 0, sizeof(Q))\<close> leave them.\<close>

definition initial :: robot where
  "initial = \<lparr> Q = replicate 80 (replicate 5 0),
      sensorVals = replicate 5 0,
      alpha = 38, gamma_d = 242, epsilon = 77,
      curSegment = 0, curLineState = 0, curAction = 2,
      totalDist = 0, episodeReward = 0, bestReward = - 1000,
      episode = 0, tasksComplete = 0, taskFlags = 0,
      running = False, calibrated = False, crossings = 0,
      startTime = 0, centered = 0, readings = 0, lostCount = 0 \<rparr>"

text \<open>The shape of the array: 80 rows of 5 entries.\<close>

definition Q_wf :: "8 word list list \<Rightarrow> bool" where
  "Q_wf q \<longleftrightarrow> length q = Q_TABLE_SIZE \<and> list_all (\<lambda>row. length row = NUM_ACTIONS) q"

subsection \<open>readSensors\<close>

text \<open>The loop that thresholds the five readings into the bit mask.\<close>

definition readSensors_bits :: "16 word list \<Rightarrow> 8 word" where
  "readSensors_bits vals =
     foldl (\<lambda>bits i. if 500 < vals ! i then bits OR push_bit (4 - i) 1 else bits)
       0 [0..<NUM_SENSORS]"

text \<open>The chain of tests mapping the bit mask to the line state, in the source's order;
  the second component tells whether the branch taken is the one that counts a crossing.\<close>

definition readSensors_classify :: "8 word \<Rightarrow> 8 word \<times> bool" where
  "readSensors_classify bits =
     (if bits = 0 then (0, False)
      else if bits AND 4 \<noteq> 0 then (4, False)
      else if bits AND 8 \<noteq> 0 then (3, False)
      else if bits AND 2 \<noteq> 0 then (5, False)
      else if bits AND 16 \<noteq> 0 then (2, False)
      else if bits AND 1 \<noteq> 0 then (6, False)
      else if bits = 31 then (4, True)
      else (4, False))"

definition readSensors :: "16 word list \<Rightarrow> 32 word \<Rightarrow> robot \<Rightarrow> robot" where
  "readSensors vals now s =
     (let bits = readSensors_bits vals;
          (ls, crossing) = readSensors_classify bits;
          s1 = s\<lparr>sensorVals := vals, curLineState := ls\<rparr>;
          s2 = (if crossing \<and> 2000 < now - startTime s1
                then s1\<lparr>crossings := crossings s1 + 1\<rparr> else s1);
          s3 = s2\<lparr>readings := readings s2 + 1\<rparr>
      in if 3 \<le> curLineState s3 \<and> curLineState s3 \<le> 5
         then s3\<lparr>centered := centered s3 + 1\<rparr> else s3)"

subsection \<open>updatePosition\<close>

text \<open>The scan of the distance table from index \<open>i\<close> down to 0, leaving at the first
  threshold that the distance has reached.\<close>

fun updatePosition_scan :: "nat \<Rightarrow> robot \<Rightarrow> robot" where
  "updatePosition_scan 0 s =
     (if SEG_DIST ! 0 \<le> totalDist s
      then (if curSegment s \<noteq> 0 then s\<lparr>curSegment := 0\<rparr> else s)
      else s)"
| "updatePosition_scan (Suc i) s =
     (if SEG_DIST ! Suc i \<le> totalDist s
      then (if curSegment s \<noteq> of_nat (Suc i) then s\<lparr>curSegment := of_nat (Suc i)\<rparr> else s)
      else updatePosition_scan i s)"

definition updatePosition :: "16 word \<Rightarrow> 16 word \<Rightarrow> robot \<Rightarrow> robot" where
  "updatePosition l r s =
     updatePosition_scan (NUM_SEGMENTS - 1)
       (s\<lparr>totalDist := totalDist s + c_sdiv (c_abs l + c_abs r) 2\<rparr>)"

subsection \<open>The Q-learning functions\<close>

definition encodeState :: "robot \<Rightarrow> 8 word" where
  "encodeState s = curSegment s * of_nat NUM_LINE_STATES + curLineState s"

text \<open>The scan for the best action of a row: the pair is \<open>(bestVal, bestAct)\<close>, and
  \<open>selectAction_step\<close> is one pass of the loop body.\<close>

definition selectAction_step :: "8 word list \<Rightarrow> 8 word \<times> 8 word \<Rightarrow> nat \<Rightarrow> 8 word \<times> 8 word" where
  "selectAction_step row best a =
     (case best of (bestVal, bestAct) \<Rightarrow>
        if bestVal <s row ! a then (row ! a, of_nat a) else (bestVal, bestAct))"

definition selectAction_scan :: "8 word list \<Rightarrow> 8 word \<times> 8 word" where
  "selectAction_scan row = foldl (selectAction_step row) (- 128, 2) [0..<NUM_ACTIONS]"

text \<open>\<open>rnd1\<close> and \<open>rnd2\<close> are the raw values behind \<open>random(255)\<close> and
  \<open>random(NUM_ACTIONS)\<close>.\<close>

definition selectAction :: "nat \<Rightarrow> nat \<Rightarrow> 8 word \<Rightarrow> robot \<Rightarrow> 8 word option" where
  "selectAction rnd1 rnd2 state s =
     (if random_max rnd1 255 < unat (epsilon s) then Some (of_nat (random_max rnd2 NUM_ACTIONS))
      else if unat state < Q_TABLE_SIZE then Some (snd (selectAction_scan (Q s ! unat state)))
      else None)"

text \<open>The maximum of the row of the next state, from the start value -128.\<close>

definition updateQ_maxNext :: "8 word list \<Rightarrow> 8 word" where
  "updateQ_maxNext row =
     foldl (\<lambda>maxNext i. if maxNext <s row ! i then row ! i else maxNext)
       (- 128) [0..<NUM_ACTIONS]"

definition updateQ_target :: "8 word \<Rightarrow> 8 word \<Rightarrow> 8 word \<Rightarrow> 16 word" where
  "updateQ_target g r maxNext = scast r + c_sdiv (ucast g * scast maxNext) 255"

definition updateQ_delta :: "16 word \<Rightarrow> 8 word \<Rightarrow> 16 word" where
  "updateQ_delta target q = target - scast q"

definition updateQ_update :: "8 word \<Rightarrow> 16 word \<Rightarrow> 16 word" where
  "updateQ_update al delta = c_sdiv (ucast al * delta) 255"

definition updateQ_newQ :: "8 word \<Rightarrow> 16 word \<Rightarrow> 16 word" where
  "updateQ_newQ q update =
     (let newQ = scast q + update;
          newQ = (if 127 <s newQ then 127 else newQ);
          newQ = (if newQ <s - 128 then - 128 else newQ)
      in newQ)"

definition updateQ :: "8 word \<Rightarrow> 8 word \<Rightarrow> 8 word \<Rightarrow> 8 word \<Rightarrow> robot \<Rightarrow> robot option" where
  "updateQ st a r st2 s =
     (if unat st < Q_TABLE_SIZE \<and> unat a < NUM_ACTIONS \<and> unat st2 < Q_TABLE_SIZE
      then
        (let maxNext = updateQ_maxNext (Q s ! unat st2);
             q = Q s ! unat st ! unat a;
             target = updateQ_target (gamma_d s) r maxNext;
             delta = updateQ_delta target q;
             update = updateQ_update (alpha s) delta;
             newQ = updateQ_newQ q update
         in Some (s\<lparr>Q := (Q s)[unat st := (Q s ! unat st)[unat a := ucast newQ]]\<rparr>))
      else None)"

definition calcReward :: "robot \<Rightarrow> 8 word" where
  "calcReward s =
     (let r = 0;
          r = (if curLineState s = 4 then r + 3
               else if curLineState s = 3 \<or> curLineState s = 5 then r + 1
               else if curLineState s = 0 then r - 10
               else r - 1);
          r = (if curLineState s = 4 \<and> curSegment s = 5 then r + 5 else r)
      in r - 1)"

subsection \<open>Waypoints\<close>

definition checkWaypoints_step :: "robot \<Rightarrow> nat \<Rightarrow> robot" where
  "checkWaypoints_step s i =
     (let loc = TASK_LOCS ! i in
      if curSegment s = loc \<and> taskFlags s AND push_bit i 1 = 0
      then s\<lparr>taskFlags := taskFlags s OR push_bit i 1,
             tasksComplete := tasksComplete s + 1,
             episodeReward := episodeReward s + 30\<rparr>
      else s)"

definition checkWaypoints :: "robot \<Rightarrow> robot" where
  "checkWaypoints s = foldl checkWaypoints_step s [0..<5]"

subsection \<open>Episode management\<close>

definition startEpisode :: "32 word \<Rightarrow> robot \<Rightarrow> robot" where
  "startEpisode now s =
     s\<lparr>episode := episode s + 1,
       episodeReward := 0,
       totalDist := 0,
       curSegment := 0,
       tasksComplete := 0,
       taskFlags := 0,
       crossings := 0,
       centered := 0,
       readings := 0,
       startTime := now,
       running := True\<rparr>"

datatype end_reason = Timeout | Complete | Lost

text \<open>\<open>checkEnd\<close> returns \<open>None\<close> where the source returns \<open>false\<close>, and the reason it
  prints where the source returns \<open>true\<close>.\<close>

definition checkEnd :: "32 word \<Rightarrow> robot \<Rightarrow> end_reason option \<times> robot" where
  "checkEnd now s =
     (if 45000 < now - startTime s then (Some Timeout, s)
      else if 5 \<le> tasksComplete s \<and> 9 \<le> curSegment s then (Some Complete, s)
      else if curLineState s = 0 then
        (let s1 = s\<lparr>lostCount := lostCount s + 1\<rparr>
         in if 100 < lostCount s1 then (Some Lost, s1) else (None, s1))
      else (None, s\<lparr>lostCount := 0\<rparr>))"

text \<open>The decay of the exploration rate, computed on \<open>uint16_t\<close> and stored back into
  the \<open>uint8_t\<close>.\<close>

definition endEpisode_decay :: "8 word \<Rightarrow> 8 word" where
  "endEpisode_decay e =
     (let e1 = (ucast ((ucast e :: 16 word) * ucast EPS_DECAY div 255) :: 8 word)
      in if e1 < EPS_MIN then EPS_MIN else e1)"

text \<open>\<open>now\<close> is the time at which the operator presses the button and the next episode
  starts.\<close>

definition endEpisode :: "32 word \<Rightarrow> robot \<Rightarrow> robot" where
  "endEpisode now s =
     (let s1 = s\<lparr>running := False\<rparr>;
          s2 = s1\<lparr>epsilon := endEpisode_decay (epsilon s1)\<rparr>;
          s3 = (if bestReward s2 <s episodeReward s2
                then s2\<lparr>bestReward := episodeReward s2\<rparr> else s2)
      in startEpisode now s3)"

subsection \<open>The main loop\<close>

text \<open>What one pass of \<open>loop\<close> reads from the hardware: the calibrated readings, the
  encoder counts, the two raw random values, and \<open>millis()\<close> as \<open>readSensors\<close>,
  \<open>checkEnd\<close> and (after an episode has ended and the button was pressed)
  \<open>startEpisode\<close> read it. The telemetry of step 7 reads the state and writes none of
  it.\<close>

record tick =
  in_sensors :: "16 word list"
  in_left :: "16 word"
  in_right :: "16 word"
  in_rnd1 :: nat
  in_rnd2 :: nat
  in_millis_sense :: "32 word"
  in_millis_end :: "32 word"
  in_millis_start :: "32 word"

text \<open>Steps 1 to 8 of \<open>loop\<close> up to the result of \<open>checkEnd\<close>; \<open>None\<close> when an access
  to \<open>Q\<close> is out of the array.\<close>

definition loop_steps :: "tick \<Rightarrow> robot \<Rightarrow> (end_reason option \<times> robot) option" where
  "loop_steps inp s =
     (let s1 = readSensors (in_sensors inp) (in_millis_sense inp) s;
          s2 = updatePosition (in_left inp) (in_right inp) s1;
          state = encodeState s2
      in case selectAction (in_rnd1 inp) (in_rnd2 inp) state s2 of
           None \<Rightarrow> None
         | Some act \<Rightarrow>
            (let s3 = s2\<lparr>curAction := act\<rparr>;
                 reward = calcReward s3;
                 s4 = s3\<lparr>episodeReward := episodeReward s3 + scast reward\<rparr>;
                 nextState = encodeState s4
             in case updateQ state (curAction s4) reward nextState s4 of
                  None \<Rightarrow> None
                | Some s5 \<Rightarrow> Some (checkEnd (in_millis_end inp) (checkWaypoints s5))))"

definition loop :: "tick \<Rightarrow> robot \<Rightarrow> (end_reason option \<times> robot) option" where
  "loop inp s =
     (if \<not> running s then Some (None, s)
      else case loop_steps inp s of
             None \<Rightarrow> None
           | Some (None, s') \<Rightarrow> Some (None, s')
           | Some (Some reason, s') \<Rightarrow> Some (Some reason, endEpisode (in_millis_start inp) s'))"

text \<open>The sketch's \<open>setup()\<close>: the table is cleared, \<open>calibrate\<close> sets its flag, and the
  first episode starts when the button is pressed at time \<open>now\<close>.\<close>

definition calibrate :: "robot \<Rightarrow> robot" where
  "calibrate s = s\<lparr>calibrated := True\<rparr>"

definition setup_sketch :: "32 word \<Rightarrow> robot" where
  "setup_sketch now = startEpisode now (calibrate (initial\<lparr>Q := replicate 80 (replicate 5 0)\<rparr>))"

text \<open>The states the sketch can be in between two passes of \<open>loop\<close>.\<close>

inductive reachable :: "robot \<Rightarrow> bool" where
  reachable_start: "reachable (setup_sketch now)"
| reachable_loop:
    "reachable s \<Longrightarrow> length (in_sensors inp) = NUM_SENSORS \<Longrightarrow> loop inp s = Some (res, s')
      \<Longrightarrow> reachable s'"

subsection \<open>Predicates of the statements\<close>

text \<open>The best action of a row as the specification words it: an action whose value is
  the greatest of the row, and the lowest such action, every earlier one being strictly
  smaller.\<close>

definition is_first_max :: "8 word list \<Rightarrow> nat \<Rightarrow> bool" where
  "is_first_max row a \<longleftrightarrow>
     a < NUM_ACTIONS \<and> list_all (\<lambda>j. row ! j \<le>s row ! a) [0..<NUM_ACTIONS] \<and>
     list_all (\<lambda>j. row ! j <s row ! a) [0..<a]"

text \<open>The invariant of the scan of \<open>selectAction\<close> after the actions below \<open>n\<close>.\<close>

definition selectAction_inv :: "8 word list \<Rightarrow> nat \<Rightarrow> 8 word \<times> 8 word \<Rightarrow> bool" where
  "selectAction_inv row n best \<longleftrightarrow>
     (case best of (bv, ba) \<Rightarrow>
        (\<forall>j<n. sint (row ! j) \<le> sint bv) \<and>
        (if \<exists>j<n. - 128 < sint (row ! j)
         then unat ba < n \<and> bv = row ! unat ba \<and> (\<forall>j<unat ba. sint (row ! j) < sint bv)
         else bv = - 128 \<and> ba = 2))"

text \<open>The number of task flags that are set, among the five bits in use.\<close>

definition flag_count :: "8 word \<Rightarrow> nat" where
  "flag_count f = length (filter (bit f) [0..<5])"

text \<open>What holds of the variables between the functions of a pass of \<open>loop\<close>: the array has
  its shape, the indices are in their ranges, the learning parameters are the initial
  ones, the exploration rate is at least \<open>EPS_MIN\<close>, and the task count is the number of
  flags set.\<close>

definition robot_inv :: "robot \<Rightarrow> bool" where
  "robot_inv s \<longleftrightarrow>
     Q_wf (Q s) \<and> unat (curSegment s) < NUM_SEGMENTS \<and> unat (curLineState s) < NUM_LINE_STATES \<and>
     unat (curAction s) < NUM_ACTIONS \<and> running s \<and> alpha s = 38 \<and> gamma_d s = 242 \<and>
     EPS_MIN \<le> epsilon s \<and> unat (tasksComplete s) = flag_count (taskFlags s)"

text \<open>A state in which the robot has not moved and no task is complete, as at the start
  of an episode.\<close>

definition standing :: "robot \<Rightarrow> bool" where
  "standing s \<longleftrightarrow> robot_inv s \<and> totalDist s = 0 \<and> tasksComplete s = 0"

text \<open>Successive passes of \<open>loop\<close>, one per element of the input, with what each pass
  reports.\<close>

fun run_loop :: "tick list \<Rightarrow> robot \<Rightarrow> (end_reason option list \<times> robot) option" where
  "run_loop [] s = Some ([], s)"
| "run_loop (inp # inps) s =
     (case loop inp s of
        None \<Rightarrow> None
      | Some (res, s') \<Rightarrow>
         (case run_loop inps s' of
            None \<Rightarrow> None
          | Some (ress, s'') \<Rightarrow> Some (res # ress, s'')))"

text \<open>The line state that \<open>readSensors\<close> derives from the readings of a pass.\<close>

definition tick_line_state :: "tick \<Rightarrow> 8 word" where
  "tick_line_state inp = fst (readSensors_classify (readSensors_bits (in_sensors inp)))"

text \<open>A pass of the scenarios: the readings give the line state \<open>ls\<close>, the wheels have not
  turned (so the segment stays), and \<open>checkEnd\<close> reads a time within the 45 s budget of the
  episode that started at \<open>start\<close>.\<close>

definition scenario_tick :: "32 word \<Rightarrow> 8 word \<Rightarrow> tick \<Rightarrow> bool" where
  "scenario_tick start ls inp \<longleftrightarrow>
     tick_line_state inp = ls \<and> in_left inp = 0 \<and> in_right inp = 0 \<and>
     in_millis_end inp - start \<le> 45000"

text \<open>For how many passes up to the last one the line state has been LOST without a
  break: the length of the run of LOST readings that ends the stream of passes.\<close>

definition lost_streak :: "tick list \<Rightarrow> nat" where
  "lost_streak passes = length (takeWhile (\<lambda>inp. tick_line_state inp = 0) (rev passes))"

text \<open>Every entry of the table is at least -127.\<close>

definition Q_above :: "8 word list list \<Rightarrow> bool" where
  "Q_above q \<longleftrightarrow> list_all (list_all (\<lambda>v. - 127 \<le> sint v)) q"

text \<open>Concrete passes: the line under the centre sensor (early in the first episode, and
  50 s after its start), and no line under any sensor (in the first episode, and in an
  episode started at 60000 ms).\<close>

definition center_tick :: tick where
  "center_tick = \<lparr>in_sensors = [0, 0, 1000, 0, 0], in_left = 0, in_right = 0,
     in_rnd1 = 0, in_rnd2 = 0, in_millis_sense = 1000, in_millis_end = 1000,
     in_millis_start = 60000\<rparr>"

definition center_tick_late :: tick where
  "center_tick_late = \<lparr>in_sensors = [0, 0, 1000, 0, 0], in_left = 0, in_right = 0,
     in_rnd1 = 0, in_rnd2 = 0, in_millis_sense = 50000, in_millis_end = 50000,
     in_millis_start = 60000\<rparr>"

definition lost_tick :: tick where
  "lost_tick = \<lparr>in_sensors = [0, 0, 0, 0, 0], in_left = 0, in_right = 0,
     in_rnd1 = 0, in_rnd2 = 0, in_millis_sense = 1000, in_millis_end = 1000,
     in_millis_start = 60000\<rparr>"

definition lost_tick_next :: tick where
  "lost_tick_next = \<lparr>in_sensors = [0, 0, 0, 0, 0], in_left = 0, in_right = 0,
     in_rnd1 = 0, in_rnd2 = 0, in_millis_sense = 61000, in_millis_end = 61000,
     in_millis_start = 120000\<rparr>"

section \<open>Arithmetic of the 8-bit and 16-bit values\<close>

lemma upt_5: "[0..<5] = [0, 1, 2, 3, 4]"
  by (simp add: upt_rec)

lemma sint_scast_8_16: "sint (scast (x::8 word) :: 16 word) = sint x"
  by (simp add: sint_up_scast is_up)

lemma sint_ucast_8_16: "sint (ucast (x::8 word) :: 16 word) = uint x"
proof -
  have u: "uint (ucast x :: 16 word) = uint x"
    by (simp add: uint_up_ucast is_up)
  have "signed_take_bit 15 (uint x) = uint x"
  proof (rule signed_take_bit_int_eq_self)
    have "- (2 ^ 15) \<le> (0::int)" by simp
    also have "0 \<le> uint x" by simp
    finally show "- (2 ^ 15) \<le> uint x" .
    show "uint x < 2 ^ 15"
      using uint_bounded [of x] by simp
  qed
  then show ?thesis
    by (simp add: sint_uint u)
qed

lemma sint8_ge: "- 128 \<le> sint (x::8 word)"
  using sint_ge [of x] by simp

lemma sint8_le: "sint (x::8 word) \<le> 127"
  using sint_lt [of x] by simp

lemma uint8_le: "uint (x::8 word) \<le> 255"
  using uint_bounded [of x] by simp

lemma sint16_of_int:
  "- 32768 \<le> k \<Longrightarrow> k \<le> 32767 \<Longrightarrow> sint (word_of_int k :: 16 word) = k"
  by (simp add: sint_sbintrunc' signed_take_bit_int_eq_self)

lemma sint16_add:
  "- 32768 \<le> sint a + sint b \<Longrightarrow> sint a + sint b \<le> 32767
    \<Longrightarrow> sint (a + b :: 16 word) = sint a + sint b"
  by (simp add: sint_word_add signed_take_bit_int_eq_self)

lemma sint16_diff:
  "- 32768 \<le> sint a - sint b \<Longrightarrow> sint a - sint b \<le> 32767
    \<Longrightarrow> sint (a - b :: 16 word) = sint a - sint b"
  by (simp add: sint_word_ariths signed_take_bit_int_eq_self)

lemma sint16_mult:
  "- 32768 \<le> sint a * sint b \<Longrightarrow> sint a * sint b \<le> 32767
    \<Longrightarrow> sint (a * b :: 16 word) = sint a * sint b"
  by (simp add: sint_word_mult signed_take_bit_int_eq_self)

lemma sint_ucast_16_8:
  assumes "- 128 \<le> sint (w::16 word)" "sint w \<le> 127"
  shows "sint (ucast w :: 8 word) = sint w"
proof -
  have "(ucast w :: 8 word) = scast w"
    by (simp add: down_cast_same is_down)
  also have "\<dots> = word_of_int (sint w)"
    by (rule scast_eq)
  finally have e: "(ucast w :: 8 word) = word_of_int (sint w)" .
  have "sint (word_of_int (sint w) :: 8 word) = signed_take_bit 7 (sint w)"
    by (simp only: sint_sbintrunc') simp
  also have "\<dots> = sint w"
    using assms by (intro signed_take_bit_int_eq_self) auto
  finally show ?thesis
    by (simp only: e)
qed

lemma mult_bounds:
  fixes a b :: int
  assumes "0 \<le> a" "a \<le> A" "- B \<le> b" "b \<le> B"
  shows "- (A * B) \<le> a * b \<and> a * b \<le> A * B"
proof -
  have "\<bar>a * b\<bar> = \<bar>a\<bar> * \<bar>b\<bar>" by (rule abs_mult)
  also have "\<dots> \<le> A * B"
    using assms by (intro mult_mono) auto
  finally show ?thesis by (simp add: abs_le_iff)
qed

lemma sdiv_255_bounds:
  "- (255 * n) \<le> k \<Longrightarrow> k \<le> 255 * n \<Longrightarrow> - n \<le> (k::int) sdiv 255 \<and> k sdiv 255 \<le> n"
  by (cases "0 \<le> k") (auto simp: signed_divide_int_def sgn_if)

lemma sint_c_sdiv_255: "sint (c_sdiv a 255) = sint a sdiv 255"
proof -
  have "- (255 * 129) \<le> sint a" "sint a \<le> 255 * 129"
    using sint_ge [of a] sint_lt [of a] by simp_all
  then have "- 129 \<le> sint a sdiv 255 \<and> sint a sdiv 255 \<le> 129"
    by (rule sdiv_255_bounds)
  then show ?thesis
    by (simp add: c_sdiv_def sint16_of_int)
qed

lemma sint_c_sdiv_255_bounds: "- 129 \<le> sint (c_sdiv x 255) \<and> sint (c_sdiv x 255) \<le> 129"
proof -
  have "- (255 * 129) \<le> sint x" "sint x \<le> 255 * 129"
    using sint_ge [of x] sint_lt [of x] by simp_all
  then have "- 129 \<le> sint x sdiv 255 \<and> sint x sdiv 255 \<le> 129"
    by (rule sdiv_255_bounds)
  then show ?thesis
    by (simp add: sint_c_sdiv_255)
qed

section \<open>The table and its update\<close>

lemma Q_wf_initial: "Q_wf (Q initial)"
  by (simp add: Q_wf_def initial_def Q_TABLE_SIZE_def NUM_ACTIONS_def list_all_length)

lemma Q_wf_replicate: "Q_wf (replicate 80 (replicate 5 v))"
  by (simp add: Q_wf_def Q_TABLE_SIZE_def NUM_ACTIONS_def list_all_length)

lemma Q_wf_row: "Q_wf q \<Longrightarrow> i < Q_TABLE_SIZE \<Longrightarrow> length (q ! i) = NUM_ACTIONS"
  by (simp add: Q_wf_def list_all_length)

lemma Q_wf_update:
  assumes "Q_wf q"
  shows "Q_wf (q[i := (q ! i)[j := v]])"
proof -
  from assms have rows: "length (q ! n) = NUM_ACTIONS" if "n < length q" for n
    using that by (simp add: Q_wf_def list_all_length)
  have "length (q[i := (q ! i)[j := v]] ! n) = NUM_ACTIONS" if "n < length q" for n
    using that rows [of n] rows [of i] by (cases "n = i") simp_all
  with assms show ?thesis
    by (simp add: Q_wf_def list_all_length)
qed

lemma Q_update_nth:
  assumes "Q_wf q" "i < Q_TABLE_SIZE" "j < NUM_ACTIONS"
  shows "q[i := (q ! i)[j := v]] ! i' ! j' = (if i' = i \<and> j' = j then v else q ! i' ! j')"
  using assms Q_wf_row [OF assms(1,2)]
  by (auto simp: Q_wf_def nth_list_update)

text \<open>The sum of the old entry and the update does not leave the 16-bit range, and the
  two comparisons bring it into the 8-bit range before the cast.\<close>

lemma sint_updateQ_newQ:
  assumes "- 129 \<le> sint u" "sint u \<le> 129"
  shows "sint (updateQ_newQ q u) = max (- 128) (min 127 (sint q + sint u))"
proof -
  have s: "sint (scast q + u :: 16 word) = sint q + sint u"
    using assms sint8_ge [of q] sint8_le [of q]
    by (simp add: sint16_add sint_scast_8_16)
  show ?thesis
    by (simp add: updateQ_newQ_def Let_def word_sless_alt s)
qed

lemma sint_stored_newQ:
  "sint (ucast (updateQ_newQ q (updateQ_update al d)) :: 8 word)
     = max (- 128) (min 127 (sint q + sint (updateQ_update al d)))"
proof -
  have b: "- 129 \<le> sint (updateQ_update al d) \<and> sint (updateQ_update al d) \<le> 129"
    unfolding updateQ_update_def by (rule sint_c_sdiv_255_bounds)
  then have e: "sint (updateQ_newQ q (updateQ_update al d))
      = max (- 128) (min 127 (sint q + sint (updateQ_update al d)))"
    by (intro sint_updateQ_newQ) auto
  then have "- 128 \<le> sint (updateQ_newQ q (updateQ_update al d))"
    "sint (updateQ_newQ q (updateQ_update al d)) \<le> 127"
    by auto
  then show ?thesis
    by (simp only: sint_ucast_16_8 e)
qed

text \<open>With the learning rate of the sketch (any rate up to 85/255), no intermediate value
  of the update leaves the 16-bit range: the 16-bit results are the integer ones.\<close>

lemma sint_updateQ_target:
  "sint (updateQ_target g r m) = sint r + (uint g * sint m) sdiv 255"
proof -
  have pb: "- (255 * 128) \<le> uint g * sint m \<and> uint g * sint m \<le> 255 * 128"
    using uint8_le [of g] sint8_ge [of m] sint8_le [of m]
    by (intro mult_bounds) auto
  have p: "sint (ucast g * scast m :: 16 word) = uint g * sint m"
    using pb by (simp add: sint16_mult sint_ucast_8_16 sint_scast_8_16)
  have db: "- 128 \<le> (uint g * sint m) sdiv 255 \<and> (uint g * sint m) sdiv 255 \<le> 128"
    using pb by (intro sdiv_255_bounds) auto
  show ?thesis
    unfolding updateQ_target_def
    using db sint8_ge [of r] sint8_le [of r]
    by (simp add: sint16_add sint_c_sdiv_255 p sint_scast_8_16)
qed

lemma sint_updateQ_target_bounds:
  "- 256 \<le> sint (updateQ_target g r m) \<and> sint (updateQ_target g r m) \<le> 255"
proof -
  have pb: "- (255 * 128) \<le> uint g * sint m \<and> uint g * sint m \<le> 255 * 128"
    using uint8_le [of g] sint8_ge [of m] sint8_le [of m]
    by (intro mult_bounds) auto
  have db: "- 128 \<le> (uint g * sint m) sdiv 255 \<and> (uint g * sint m) sdiv 255 \<le> 128"
    using pb by (intro sdiv_255_bounds) auto
  show ?thesis
    using db sint8_ge [of r] sint8_le [of r] by (simp add: sint_updateQ_target)
qed

lemma sint_updateQ_delta:
  assumes "- 256 \<le> sint t" "sint t \<le> 255"
  shows "sint (updateQ_delta t q) = sint t - sint q"
  unfolding updateQ_delta_def
  using assms sint8_ge [of q] sint8_le [of q]
  by (simp add: sint16_diff sint_scast_8_16)

lemma sint_updateQ_update:
  assumes "unat al \<le> 85" "- 383 \<le> sint d" "sint d \<le> 383"
  shows "sint (updateQ_update al d) = (uint al * sint d) sdiv 255"
proof -
  have "uint al = int (unat al)" by (rule uint_nat)
  with assms(1) have a: "uint al \<le> 85" by linarith
  have pb: "- (85 * 383) \<le> uint al * sint d \<and> uint al * sint d \<le> 85 * 383"
    using a assms(2,3) by (intro mult_bounds) auto
  have p: "sint (ucast al * d :: 16 word) = uint al * sint d"
    using pb by (simp add: sint16_mult sint_ucast_8_16)
  show ?thesis
    by (simp add: updateQ_update_def sint_c_sdiv_255 p)
qed

lemma updateQ_update_exact:
  assumes "unat al \<le> 85"
  shows "sint (updateQ_update al (updateQ_delta (updateQ_target g r m) q))
     = (uint al * (sint r + (uint g * sint m) sdiv 255 - sint q)) sdiv 255"
proof -
  let ?t = "updateQ_target g r m"
  have tb: "- 256 \<le> sint ?t" "sint ?t \<le> 255"
    using sint_updateQ_target_bounds [of g r m] by simp_all
  have d: "sint (updateQ_delta ?t q) = sint ?t - sint q"
    using tb by (rule sint_updateQ_delta)
  have "- 383 \<le> sint (updateQ_delta ?t q)" "sint (updateQ_delta ?t q) \<le> 383"
    using tb sint8_ge [of q] sint8_le [of q] by (simp_all add: d)
  with assms have "sint (updateQ_update al (updateQ_delta ?t q))
      = (uint al * sint (updateQ_delta ?t q)) sdiv 255"
    by (rule sint_updateQ_update)
  then show ?thesis
    by (simp add: d sint_updateQ_target)
qed

lemma updateQ_maxNext_zero: "updateQ_maxNext (replicate NUM_ACTIONS 0) = 0"
  by (simp add: updateQ_maxNext_def NUM_ACTIONS_def upt_5 word_sless_alt)

section \<open>Sensors, waypoints, exploration rate and action scan\<close>

lemma readSensors_bits_all: "readSensors_bits [1000, 1000, 1000, 1000, 1000] = 31"
  by (simp add: readSensors_bits_def NUM_SENSORS_def upt_5)

lemma readSensors_crossings: "crossings (readSensors vals now s) = crossings s"
  by (simp add: readSensors_def readSensors_classify_def Let_def)

lemma unat8_less: "unat (e::8 word) < 256"
  using unsigned_less [of e, where 'a=nat] by simp

lemma unat_ucast_8_16: "unat (ucast (e::8 word) :: 16 word) = unat e"
  using unat8_less [of e] by (simp add: unsigned_ucast_eq take_bit_nat_eq_self)

lemma unat_ucast_16_8: "unat (w::16 word) < 256 \<Longrightarrow> unat (ucast w :: 8 word) = unat w"
  by (simp add: unsigned_ucast_eq take_bit_nat_eq_self)

lemma unat_endEpisode_decay:
  "unat (endEpisode_decay e) = max 13 (unat e * 253 div 255)"
proof -
  have b: "unat e < 256" by (rule unat8_less)
  have m: "unat ((ucast e :: 16 word) * 253) = unat e * 253"
    using b by (simp add: unat_word_ariths unat_ucast_8_16)
  have d: "unat ((ucast e :: 16 word) * 253 div 255) = unat e * 253 div 255"
    by (simp add: unat_div m)
  have "unat e * 253 div 255 < 256" using b by simp
  then have c: "unat (ucast ((ucast e :: 16 word) * 253 div 255) :: 8 word) = unat e * 253 div 255"
    by (simp add: unat_ucast_16_8 d)
  show ?thesis
    by (simp add: endEpisode_decay_def EPS_MIN_def EPS_DECAY_def Let_def word_less_nat_alt c)
qed

lemma endEpisode_decay_le:
  assumes "EPS_MIN \<le> e"
  shows "endEpisode_decay e \<le> e" 
proof -
  have "13 \<le> unat e" using assms by (simp add: EPS_MIN_def word_le_nat_alt)
  moreover have "unat e * 253 div 255 \<le> unat e" by simp
  ultimately show ?thesis
    by (simp add: word_le_nat_alt unat_endEpisode_decay)
qed

lemma endEpisode_decay_ge: "EPS_MIN \<le> endEpisode_decay e"
  by (simp add: word_le_nat_alt unat_endEpisode_decay EPS_MIN_def)

lemma endEpisode_decay_funpow_ge: "EPS_MIN \<le> e \<Longrightarrow> EPS_MIN \<le> (endEpisode_decay ^^ n) e"
  by (induction n) (simp_all add: endEpisode_decay_ge)

lemma epsilon_endEpisode: "epsilon (endEpisode now s) = endEpisode_decay (epsilon s)"
  by (simp add: endEpisode_def startEpisode_def Let_def)

lemma less_5_cases: "i < 5 \<Longrightarrow> i = 0 \<or> i = 1 \<or> i = 2 \<or> i = 3 \<or> i = (4::nat)"
  by arith

lemma flag_test_bit:
  "((f::8 word) AND push_bit i 1 = 0) = (\<not> bit f i)"
  by (simp add: and_exp_eq_0_iff_not_bit)

lemma bit_set_flag: "i < 5 \<Longrightarrow> bit ((f::8 word) OR push_bit i 1) i"
  by (simp add: bit_simps)

lemma checkWaypoints_step_skip:
  "curSegment s \<noteq> TASK_LOCS ! j \<Longrightarrow> checkWaypoints_step s j = s"
  by (simp add: checkWaypoints_step_def)

lemma checkWaypoints_step_done:
  "bit (taskFlags s) j \<Longrightarrow> checkWaypoints_step s j = s"
  by (simp only: checkWaypoints_step_def Let_def flag_test_bit) simp

lemma curSegment_checkWaypoints_step [simp]:
  "curSegment (checkWaypoints_step s j) = curSegment s"
  by (simp add: checkWaypoints_step_def Let_def)

lemma checkWaypoints_steps:
  "checkWaypoints s =
     checkWaypoints_step (checkWaypoints_step (checkWaypoints_step
       (checkWaypoints_step (checkWaypoints_step s 0) 1) 2) 3) 4"
  by (simp add: checkWaypoints_def upt_5)

lemma TASK_LOCS_distinct:
  "i < 5 \<Longrightarrow> j < 5 \<Longrightarrow> i \<noteq> j \<Longrightarrow> TASK_LOCS ! i \<noteq> TASK_LOCS ! j"
  by (drule less_5_cases, drule less_5_cases) (auto simp: TASK_LOCS_def)

lemma checkWaypoints_at:
  assumes "i < 5" "curSegment s = TASK_LOCS ! i"
  shows "checkWaypoints s = checkWaypoints_step s i"
proof -
  have skip: "checkWaypoints_step t j = t" if "curSegment t = curSegment s" "j < 5" "j \<noteq> i" for t j
    using that assms TASK_LOCS_distinct [of i j] by (intro checkWaypoints_step_skip) auto
  from less_5_cases [OF assms(1)] show ?thesis
    by (elim disjE) (simp_all add: checkWaypoints_steps skip)
qed

lemma checkWaypoints_elsewhere:
  assumes "curSegment s \<notin> set TASK_LOCS"
  shows "checkWaypoints s = s"
proof -
  have skip: "checkWaypoints_step t j = t" if "curSegment t = curSegment s" "j < 5" for t j
    using that assms by (intro checkWaypoints_step_skip) (auto simp: TASK_LOCS_def dest!: less_5_cases)
  show ?thesis
    by (simp add: checkWaypoints_steps skip)
qed


lemma checkWaypoints_step_first:
  assumes "curSegment s = TASK_LOCS ! i" "\<not> bit (taskFlags s) i"
  shows "checkWaypoints_step s i =
    s\<lparr>taskFlags := taskFlags s OR push_bit i 1,
      tasksComplete := tasksComplete s + 1,
      episodeReward := episodeReward s + 30\<rparr>"
  using assms by (simp only: checkWaypoints_step_def Let_def flag_test_bit) simp

lemma upt_small:
  "[0..<1] = [0]" "[0..<2] = [0, 1]" "[0..<3] = [0, 1, 2]" "[0..<4] = [0, 1, 2, 3]"
  by (simp_all add: upt_rec)

lemma selectAction_inv_0: "selectAction_inv row 0 (- 128, 2)"
  by (simp add: selectAction_inv_def)

lemma selectAction_inv_step:
  assumes n: "n < 5" and inv: "selectAction_inv row n best"
  shows "selectAction_inv row (Suc n) (selectAction_step row best n)"
proof -
  obtain bv ba where best: "best = (bv, ba)" by (cases best)
  from n have un: "unat (of_nat n :: 8 word) = n"
    by (simp add: unat_of_nat)
  from inv have le: "\<forall>j<n. sint (row ! j) \<le> sint bv"
    by (simp add: selectAction_inv_def best)
  from inv have some: "unat ba < n \<and> bv = row ! unat ba \<and> (\<forall>j<unat ba. sint (row ! j) < sint bv)"
    if "\<exists>j<n. - 128 < sint (row ! j)"
    using that by (auto simp: selectAction_inv_def best)
  from inv have none: "bv = - 128 \<and> ba = 2" if "\<not> (\<exists>j<n. - 128 < sint (row ! j))"
    using that by (simp add: selectAction_inv_def best)
  show ?thesis
  proof (cases "bv <s row ! n")
    case True
    then have lt: "sint bv < sint (row ! n)" by (simp add: word_sless_alt)
    moreover have "- 128 \<le> sint bv" by (rule sint8_ge)
    ultimately have "- 128 < sint (row ! n)" by linarith
    then have ex: "\<exists>j<Suc n. - 128 < sint (row ! j)" by blast
    have a: "\<forall>j<Suc n. sint (row ! j) \<le> sint (row ! n)"
      using le lt by (auto simp: less_Suc_eq)
    have b: "\<forall>j<n. sint (row ! j) < sint (row ! n)"
      using le lt by auto
    have "selectAction_step row best n = (row ! n, of_nat n)"
      using True by (simp add: selectAction_step_def best)
    then show ?thesis
      using a b ex by (simp add: selectAction_inv_def un)
  next
    case False
    then have ge: "sint (row ! n) \<le> sint bv" by (simp add: word_sless_alt)
    have st: "selectAction_step row best n = (bv, ba)"
      using False by (simp add: selectAction_step_def best)
    have all: "\<forall>j<Suc n. sint (row ! j) \<le> sint bv"
      using le ge by (auto simp: less_Suc_eq)
    show ?thesis
    proof (cases "\<exists>j<n. - 128 < sint (row ! j)")
      case True
      then have ex: "\<exists>j<Suc n. - 128 < sint (row ! j)" by (auto simp: less_Suc_eq)
      from some [OF True] have "unat ba < Suc n" "bv = row ! unat ba"
        "\<forall>j<unat ba. sint (row ! j) < sint bv" by auto
      with all ex show ?thesis
        unfolding selectAction_inv_def st by (simp only: split if_True)
    next
      case no: False
      from none [OF no] have b: "bv = - 128" "ba = 2" by simp_all
      with ge have "\<not> - 128 < sint (row ! n)" by simp
      with no have nex: "\<not> (\<exists>j<Suc n. - 128 < sint (row ! j))" by (auto simp: less_Suc_eq)
      from all nex b show ?thesis
        unfolding selectAction_inv_def st by (simp only: split if_False)
    qed
  qed
qed

lemma selectAction_inv_fold:
  "n \<le> 5 \<Longrightarrow> selectAction_inv row n (foldl (selectAction_step row) (- 128, 2) [0..<n])"
proof (induction n)
  case 0
  show ?case by (simp add: selectAction_inv_0)
next
  case (Suc n)
  then have "selectAction_inv row (Suc n)
      (selectAction_step row (foldl (selectAction_step row) (- 128, 2) [0..<n]) n)"
    by (intro selectAction_inv_step) simp_all
  then show ?case by simp
qed

lemma selectAction_inv_scan: "selectAction_inv row NUM_ACTIONS (selectAction_scan row)"
  unfolding selectAction_scan_def NUM_ACTIONS_def by (rule selectAction_inv_fold) simp


lemma list_all_upt: "list_all P [0..<n] = (\<forall>j<n. P j)"
  by (auto simp: list_all_iff)

lemma list_ex_upt: "list_ex P [0..<n] = (\<exists>j<n. P j)"
  by (auto simp: list_ex_iff)

lemma selectAction_scan_best:
  fixes row :: "8 word list"
  defines "act \<equiv> snd (selectAction_scan row)"
  shows "unat act < NUM_ACTIONS"
    and "list_all (\<lambda>j. row ! j \<le>s row ! unat act) [0..<NUM_ACTIONS]"
    and "if list_ex (\<lambda>j. - 128 <s row ! j) [0..<NUM_ACTIONS]
         then is_first_max row (unat act) else act = 2"
proof -
  obtain bv ba where sc: "selectAction_scan row = (bv, ba)"
    by (cases "selectAction_scan row")
  then have act: "act = ba" by (simp add: act_def)
  from selectAction_inv_scan [of row] have le: "\<forall>j<5. sint (row ! j) \<le> sint bv"
    and some: "(\<exists>j<5. - 128 < sint (row ! j)) \<Longrightarrow>
       unat ba < 5 \<and> bv = row ! unat ba \<and> (\<forall>j<unat ba. sint (row ! j) < sint bv)"
    and none: "\<not> (\<exists>j<5. - 128 < sint (row ! j)) \<Longrightarrow> bv = - 128 \<and> ba = 2"
    by (auto simp: selectAction_inv_def sc NUM_ACTIONS_def)
  have m: "sint (- 128 :: 8 word) = - 128" by simp
  show "unat act < NUM_ACTIONS"
    using some none by (cases "\<exists>j<5. - 128 < sint (row ! j)") (auto simp: act NUM_ACTIONS_def)
  have bv: "sint bv = sint (row ! unat ba)"
  proof (cases "\<exists>j<5. - 128 < sint (row ! j)")
    case True
    from some [OF True] show ?thesis by simp
  next
    case False
    from none [OF False] have b: "bv = - 128" "ba = 2" by simp_all
    from le have "sint (row ! 2) \<le> sint bv" by simp
    moreover have "- 128 \<le> sint (row ! 2)" by (rule sint8_ge)
    ultimately show ?thesis by (simp add: b)
  qed
  show "list_all (\<lambda>j. row ! j \<le>s row ! unat act) [0..<NUM_ACTIONS]"
    using le by (simp add: list_all_upt word_sle_eq act NUM_ACTIONS_def flip: bv)
  show "if list_ex (\<lambda>j. - 128 <s row ! j) [0..<NUM_ACTIONS]
         then is_first_max row (unat act) else act = 2"
  proof (cases "\<exists>j<5. - 128 < sint (row ! j)")
    case True
    from some [OF True] le bv have "is_first_max row (unat ba)"
      by (simp add: is_first_max_def list_all_upt word_sle_eq word_sless_alt NUM_ACTIONS_def)
    with True show ?thesis
      by (simp add: list_ex_upt word_sless_alt act NUM_ACTIONS_def)
  next
    case False
    from none [OF False] have "act = 2" by (simp add: act)
    moreover from False have "\<not> list_ex (\<lambda>j. - 128 <s row ! j) [0..<NUM_ACTIONS]"
      by (simp add: list_ex_upt word_sless_alt NUM_ACTIONS_def)
    ultimately show ?thesis by simp
  qed
qed

section \<open>The invariant of the main loop\<close>

lemma readSensors_classify_range: "unat (fst (readSensors_classify b)) \<le> 6"
  by (simp add: readSensors_classify_def)

lemma curLineState_readSensors:
  "curLineState (readSensors vals now s) = fst (readSensors_classify (readSensors_bits vals))"
  by (simp add: readSensors_def Let_def split: prod.split)

lemma readSensors_frame:
  "Q (readSensors vals now s) = Q s" "curSegment (readSensors vals now s) = curSegment s"
  "curAction (readSensors vals now s) = curAction s" "running (readSensors vals now s) = running s"
  "alpha (readSensors vals now s) = alpha s" "gamma_d (readSensors vals now s) = gamma_d s"
  "epsilon (readSensors vals now s) = epsilon s"
  "tasksComplete (readSensors vals now s) = tasksComplete s"
  "taskFlags (readSensors vals now s) = taskFlags s"
  "totalDist (readSensors vals now s) = totalDist s"
  "startTime (readSensors vals now s) = startTime s"
  "lostCount (readSensors vals now s) = lostCount s"
  "episodeReward (readSensors vals now s) = episodeReward s"
  "bestReward (readSensors vals now s) = bestReward s"
  by (simp_all add: readSensors_def Let_def split: prod.split)

lemma robot_inv_readSensors: "robot_inv s \<Longrightarrow> robot_inv (readSensors vals now s)"
  using readSensors_classify_range [of "readSensors_bits vals"]
  by (simp add: robot_inv_def readSensors_frame curLineState_readSensors NUM_LINE_STATES_def)

lemma updatePosition_scan_frame:
  "updatePosition_scan i s = s\<lparr>curSegment := curSegment (updatePosition_scan i s)\<rparr>"
  by (induction i) simp_all

lemma updatePosition_scan_range:
  "i < 10 \<Longrightarrow> unat (curSegment (updatePosition_scan i s)) \<le> i"
proof (induction i)
  case 0
  then show ?case by (simp add: SEG_DIST_def)
next
  case (Suc i)
  then have "unat (of_nat (Suc i) :: 8 word) = Suc i"
    by (simp add: unat_of_nat del: of_nat_Suc)
  with Suc show ?case
    by (auto simp del: of_nat_Suc)
qed


lemma updatePosition_eq:
  "updatePosition l r s =
     s\<lparr>totalDist := totalDist s + c_sdiv (c_abs l + c_abs r) 2,
       curSegment := curSegment (updatePosition l r s)\<rparr>"
  unfolding updatePosition_def
  by (subst updatePosition_scan_frame) simp

lemma curSegment_updatePosition: "unat (curSegment (updatePosition l r s)) < NUM_SEGMENTS"
  using updatePosition_scan_range [of 9 "s\<lparr>totalDist := totalDist s + c_sdiv (c_abs l + c_abs r) 2\<rparr>"]
  by (simp add: updatePosition_def NUM_SEGMENTS_def)

lemma robot_inv_updatePosition: "robot_inv s \<Longrightarrow> robot_inv (updatePosition l r s)"
  using curSegment_updatePosition [of l r s]
  by (subst updatePosition_eq) (simp add: robot_inv_def)

lemma encodeState_unat:
  assumes "unat (curSegment s) < NUM_SEGMENTS" "unat (curLineState s) < NUM_LINE_STATES"
  shows "unat (encodeState s) = unat (curSegment s) * 8 + unat (curLineState s)"
proof -
  have "unat (curSegment s) * 8 + unat (curLineState s) < 256"
    using assms by (simp add: NUM_SEGMENTS_def NUM_LINE_STATES_def)
  then show ?thesis
    by (simp add: encodeState_def NUM_LINE_STATES_def unat_word_ariths)
qed

lemma encodeState_bound:
  assumes "unat (curSegment s) < NUM_SEGMENTS" "unat (curLineState s) < NUM_LINE_STATES"
  shows "unat (encodeState s) < Q_TABLE_SIZE"
  using assms
  by (simp add: encodeState_unat) (simp add: NUM_SEGMENTS_def NUM_LINE_STATES_def Q_TABLE_SIZE_def)

lemma selectAction_Some:
  assumes "unat state < Q_TABLE_SIZE"
  shows "\<exists>act. selectAction rnd1 rnd2 state s = Some act \<and> unat act < NUM_ACTIONS"
proof (cases "random_max rnd1 255 < unat (epsilon s)")
  case True
  have "unat (of_nat (rnd2 mod 5) :: 8 word) = rnd2 mod 5"
    by (simp add: unat_of_nat)
  with True show ?thesis
    by (simp add: selectAction_def random_max_def NUM_ACTIONS_def)
next
  case False
  with assms selectAction_scan_best(1) [of "Q s ! unat state"] show ?thesis
    by (simp add: selectAction_def)
qed

lemma updateQ_Some:
  assumes "Q_wf (Q s)" "unat st < Q_TABLE_SIZE" "unat a < NUM_ACTIONS" "unat st2 < Q_TABLE_SIZE"
  shows "\<exists>q. updateQ st a r st2 s = Some (s\<lparr>Q := q\<rparr>) \<and> Q_wf q"
  using assms by (simp add: updateQ_def Let_def) (blast intro: Q_wf_update)

lemma flag_count_set:
  assumes "i < 5" "\<not> bit f i"
  shows "flag_count (f OR push_bit i 1) = Suc (flag_count f)"
  using less_5_cases [OF assms(1)] assms(2)
  by (auto simp: flag_count_def upt_5 bit_simps)

lemma flag_count_le: "flag_count f \<le> 5"
  unfolding flag_count_def using length_filter_le [of "bit f" "[0..<5]"] by simp

lemma robot_inv_checkWaypoints_step:
  assumes "robot_inv s" "i < 5"
  shows "robot_inv (checkWaypoints_step s i)"
proof (cases "curSegment s = TASK_LOCS ! i \<and> \<not> bit (taskFlags s) i")
  case True
  then have e: "checkWaypoints_step s i =
    s\<lparr>taskFlags := taskFlags s OR push_bit i 1,
      tasksComplete := tasksComplete s + 1,
      episodeReward := episodeReward s + 30\<rparr>"
    by (intro checkWaypoints_step_first) auto
  from True assms have c: "flag_count (taskFlags s OR push_bit i 1) = Suc (flag_count (taskFlags s))"
    by (intro flag_count_set) auto
  have "flag_count (taskFlags s OR push_bit i 1) \<le> 5" by (rule flag_count_le)
  with c assms(1) have "unat (tasksComplete s) < 5" by (simp add: robot_inv_def)
  then have "unat (tasksComplete s + 1) = Suc (unat (tasksComplete s))"
    by (simp add: unat_word_ariths)
  with assms(1) c show ?thesis
    by (simp only: e) (simp add: robot_inv_def)
next
  case False
  then have "checkWaypoints_step s i = s"
    using checkWaypoints_step_skip [of s i] checkWaypoints_step_done [of s i] by blast
  with assms show ?thesis by simp
qed

lemma robot_inv_checkWaypoints: "robot_inv s \<Longrightarrow> robot_inv (checkWaypoints s)"
  by (simp add: checkWaypoints_steps robot_inv_checkWaypoints_step)

lemma robot_inv_checkEnd: "robot_inv s \<Longrightarrow> robot_inv (snd (checkEnd now s))"
  by (simp add: checkEnd_def Let_def robot_inv_def)

lemma checkWaypoints_step_frame:
  "Q (checkWaypoints_step s i) = Q s"
  "curLineState (checkWaypoints_step s i) = curLineState s"
  "curAction (checkWaypoints_step s i) = curAction s"
  "totalDist (checkWaypoints_step s i) = totalDist s"
  "startTime (checkWaypoints_step s i) = startTime s"
  "lostCount (checkWaypoints_step s i) = lostCount s"
  "epsilon (checkWaypoints_step s i) = epsilon s"
  "bestReward (checkWaypoints_step s i) = bestReward s"
  by (simp_all add: checkWaypoints_step_def Let_def)

lemma checkWaypoints_frame:
  "Q (checkWaypoints s) = Q s"
  "curSegment (checkWaypoints s) = curSegment s"
  "curLineState (checkWaypoints s) = curLineState s"
  "curAction (checkWaypoints s) = curAction s"
  "totalDist (checkWaypoints s) = totalDist s"
  "startTime (checkWaypoints s) = startTime s"
  "lostCount (checkWaypoints s) = lostCount s"
  "epsilon (checkWaypoints s) = epsilon s"
  "bestReward (checkWaypoints s) = bestReward s"
  by (simp_all add: checkWaypoints_steps checkWaypoints_step_frame)

lemma updatePosition_scan_others:
  "Q (updatePosition_scan i s) = Q s" "curLineState (updatePosition_scan i s) = curLineState s"
  "curAction (updatePosition_scan i s) = curAction s"
  "tasksComplete (updatePosition_scan i s) = tasksComplete s"
  "taskFlags (updatePosition_scan i s) = taskFlags s"
  "totalDist (updatePosition_scan i s) = totalDist s"
  "startTime (updatePosition_scan i s) = startTime s"
  "lostCount (updatePosition_scan i s) = lostCount s"
  "epsilon (updatePosition_scan i s) = epsilon s"
  "episodeReward (updatePosition_scan i s) = episodeReward s"
  "bestReward (updatePosition_scan i s) = bestReward s"
  by (induction i) simp_all

lemma updatePosition_frame:
  "Q (updatePosition l r s) = Q s" "curLineState (updatePosition l r s) = curLineState s"
  "curAction (updatePosition l r s) = curAction s"
  "tasksComplete (updatePosition l r s) = tasksComplete s"
  "taskFlags (updatePosition l r s) = taskFlags s"
  "totalDist (updatePosition l r s) = totalDist s + c_sdiv (c_abs l + c_abs r) 2"
  "startTime (updatePosition l r s) = startTime s"
  "lostCount (updatePosition l r s) = lostCount s"
  "epsilon (updatePosition l r s) = epsilon s"
  "episodeReward (updatePosition l r s) = episodeReward s"
  "bestReward (updatePosition l r s) = bestReward s"
  by (simp_all add: updatePosition_def updatePosition_scan_others)

lemma updatePosition_still:
  assumes "totalDist s = 0"
  shows "curSegment (updatePosition 0 0 s) = 0" "totalDist (updatePosition 0 0 s) = 0"
proof -
  have z: "c_sdiv (c_abs 0 + c_abs 0) 2 = 0"
    by (simp add: c_abs_def c_sdiv_def)
  have n: "NUM_SEGMENTS - 1 = Suc (Suc (Suc (Suc (Suc (Suc (Suc (Suc (Suc 0))))))))"
    by (simp add: NUM_SEGMENTS_def)
  show "curSegment (updatePosition 0 0 s) = 0"
    using assms unfolding updatePosition_def z n
    by (simp add: SEG_DIST_def)
  show "totalDist (updatePosition 0 0 s) = 0"
    using assms by (simp only: updatePosition_frame z) simp
qed

lemma updatePosition_scan_cong:
  "totalDist s = totalDist t \<Longrightarrow> curSegment s = curSegment t
    \<Longrightarrow> curSegment (updatePosition_scan i s) = curSegment (updatePosition_scan i t)"
  by (induction i) simp_all

lemma updatePosition_cong:
  "totalDist s = totalDist t \<Longrightarrow> curSegment s = curSegment t
    \<Longrightarrow> curSegment (updatePosition l r s) = curSegment (updatePosition l r t)"
  unfolding updatePosition_def by (rule updatePosition_scan_cong) simp_all

text \<open>The state that \<open>loop\<close> hands to \<open>checkEnd\<close>.\<close>

lemma loop_steps_Some:
  assumes "robot_inv s"
  shows "\<exists>m. loop_steps inp s = Some (checkEnd (in_millis_end inp) m) \<and> robot_inv m \<and>
    curLineState m = fst (readSensors_classify (readSensors_bits (in_sensors inp))) \<and>
    curSegment m = curSegment (updatePosition (in_left inp) (in_right inp) s) \<and>
    totalDist m = totalDist (updatePosition (in_left inp) (in_right inp) s) \<and>
    startTime m = startTime s \<and> lostCount m = lostCount s \<and> epsilon m = epsilon s \<and>
    bestReward m = bestReward s \<and>
    (curSegment m \<notin> set TASK_LOCS \<longrightarrow> tasksComplete m = tasksComplete s)"
proof -
  define s1 where "s1 = readSensors (in_sensors inp) (in_millis_sense inp) s"
  define s2 where "s2 = updatePosition (in_left inp) (in_right inp) s1"
  have i1: "robot_inv s1" unfolding s1_def using assms by (rule robot_inv_readSensors)
  have i2: "robot_inv s2" unfolding s2_def using i1 by (rule robot_inv_updatePosition)
  have seg2: "curSegment s2 = curSegment (updatePosition (in_left inp) (in_right inp) s)"
    unfolding s2_def s1_def by (rule updatePosition_cong) (simp_all add: readSensors_frame)
  have f2: "curLineState s2 = fst (readSensors_classify (readSensors_bits (in_sensors inp)))"
    "totalDist s2 = totalDist (updatePosition (in_left inp) (in_right inp) s)"
    "startTime s2 = startTime s" "lostCount s2 = lostCount s" "epsilon s2 = epsilon s"
    "bestReward s2 = bestReward s" "tasksComplete s2 = tasksComplete s"
    by (simp_all add: s2_def s1_def updatePosition_frame readSensors_frame
        curLineState_readSensors)
  have st: "unat (encodeState s2) < Q_TABLE_SIZE"
    using i2 by (intro encodeState_bound) (simp_all add: robot_inv_def)
  then obtain act where act: "selectAction (in_rnd1 inp) (in_rnd2 inp) (encodeState s2) s2 = Some act"
    "unat act < NUM_ACTIONS"
    using selectAction_Some [of "encodeState s2" "in_rnd1 inp" "in_rnd2 inp" s2] by blast
  define s3 where "s3 = s2\<lparr>curAction := act\<rparr>"
  define s4 where "s4 = s3\<lparr>episodeReward := episodeReward s3 + scast (calcReward s3)\<rparr>"
  have e4: "encodeState s4 = encodeState s2"
    by (simp add: s4_def s3_def encodeState_def)
  have i4: "robot_inv s4"
    using i2 act(2) by (simp add: s4_def s3_def robot_inv_def)
  have a4: "curAction s4 = act"
    by (simp add: s4_def s3_def)
  obtain q where q: "updateQ (encodeState s2) act (calcReward s3) (encodeState s2) s4
      = Some (s4\<lparr>Q := q\<rparr>)" "Q_wf q"
    using updateQ_Some [of s4 "encodeState s2" act "encodeState s2" "calcReward s3"]
      i4 st act(2) by (auto simp: robot_inv_def)
  define m where "m = checkWaypoints (s4\<lparr>Q := q\<rparr>)"
  have i5: "robot_inv (s4\<lparr>Q := q\<rparr>)"
    using i4 q(2) by (simp add: robot_inv_def)
  have im: "robot_inv m" unfolding m_def using i5 by (rule robot_inv_checkWaypoints)
  have run: "loop_steps inp s = Some (checkEnd (in_millis_end inp) m)"
    unfolding loop_steps_def Let_def
    unfolding s1_def [symmetric] s2_def [symmetric]
    unfolding act(1) option.case
    unfolding s3_def [symmetric]
    unfolding s4_def [symmetric]
    unfolding a4 e4 q(1) option.case m_def [symmetric]
    by (rule refl)
  have fm: "curLineState m = curLineState s2" "curSegment m = curSegment s2"
    "totalDist m = totalDist s2" "startTime m = startTime s2" "lostCount m = lostCount s2"
    "epsilon m = epsilon s2" "bestReward m = bestReward s2"
    by (simp_all add: m_def checkWaypoints_frame s4_def s3_def)
  have tc: "tasksComplete m = tasksComplete s" if "curSegment m \<notin> set TASK_LOCS"
  proof -
    from that have "curSegment (s4\<lparr>Q := q\<rparr>) \<notin> set TASK_LOCS"
      by (simp add: fm s4_def s3_def)
    then have "m = s4\<lparr>Q := q\<rparr>" unfolding m_def by (rule checkWaypoints_elsewhere)
    then show ?thesis by (simp add: s4_def s3_def f2)
  qed
  from run im fm f2 seg2 tc show ?thesis
    by (intro exI [of _ m]) simp
qed

lemma flag_count_0: "flag_count 0 = 0"
  by (simp add: flag_count_def)

lemma robot_inv_startEpisode:
  assumes "Q_wf (Q s)" "unat (curLineState s) < NUM_LINE_STATES" "unat (curAction s) < NUM_ACTIONS"
    "alpha s = 38" "gamma_d s = 242" "EPS_MIN \<le> epsilon s"
  shows "robot_inv (startEpisode now s)"
  using assms by (simp add: robot_inv_def startEpisode_def flag_count_0 NUM_SEGMENTS_def)

lemma robot_inv_endEpisode: "robot_inv s \<Longrightarrow> robot_inv (endEpisode now s)"
  unfolding endEpisode_def Let_def
  by (rule robot_inv_startEpisode) (simp_all add: robot_inv_def endEpisode_decay_ge)

lemma robot_inv_setup: "robot_inv (setup_sketch now)"
  unfolding setup_sketch_def
  by (rule robot_inv_startEpisode)
    (simp_all add: calibrate_def initial_def Q_wf_def Q_TABLE_SIZE_def NUM_ACTIONS_def
      NUM_LINE_STATES_def EPS_MIN_def list_all_length)

lemma loop_Some:
  assumes "robot_inv s"
  shows "\<exists>res s'. loop inp s = Some (res, s') \<and> robot_inv s'"
proof -
  from loop_steps_Some [OF assms, of inp] obtain m
    where m: "loop_steps inp s = Some (checkEnd (in_millis_end inp) m)" "robot_inv m"
    by blast
  obtain res s1 where c: "checkEnd (in_millis_end inp) m = (res, s1)"
    by (cases "checkEnd (in_millis_end inp) m")
  with robot_inv_checkEnd [OF m(2), of "in_millis_end inp"] have i1: "robot_inv s1" by simp
  from assms have "running s" by (simp add: robot_inv_def)
  then show ?thesis
    using m(1) c i1 robot_inv_endEpisode [OF i1]
    by (cases res) (simp_all add: loop_def)
qed

lemma reachable_inv: "reachable s \<Longrightarrow> robot_inv s"
proof (induction rule: reachable.induct)
  case (reachable_start now)
  show ?case by (rule robot_inv_setup)
next
  case (reachable_loop s inp res s')
  from loop_Some [OF reachable_loop.IH, of inp] reachable_loop.hyps(3) show ?case
    by auto
qed

lemma encode_nat_inj:
  "a * 8 + b = c * 8 + d \<Longrightarrow> b < 8 \<Longrightarrow> d < 8 \<Longrightarrow> a = c \<and> b = (d::nat)"
  by arith

section \<open>Termination of an episode\<close>

lemma loop_steps_standing:
  assumes "standing s" "scenario_tick (startTime s) ls inp"
  shows "\<exists>m. loop_steps inp s = Some (checkEnd (in_millis_end inp) m) \<and> standing m \<and>
    curLineState m = ls \<and> curSegment m = 0 \<and> startTime m = startTime s \<and>
    lostCount m = lostCount s \<and> \<not> 45000 < in_millis_end inp - startTime m"
proof -
  from assms(1) have i: "robot_inv s" and d: "totalDist s = 0" and t: "tasksComplete s = 0"
    by (simp_all add: standing_def)
  from assms(2) have l: "in_left inp = 0" "in_right inp = 0"
    and ls: "fst (readSensors_classify (readSensors_bits (in_sensors inp))) = ls"
    and tm: "in_millis_end inp - startTime s \<le> 45000"
    by (simp_all add: scenario_tick_def tick_line_state_def)
  from loop_steps_Some [OF i, of inp] obtain m
    where m: "loop_steps inp s = Some (checkEnd (in_millis_end inp) m)" "robot_inv m"
      "curLineState m = fst (readSensors_classify (readSensors_bits (in_sensors inp)))"
      "curSegment m = curSegment (updatePosition (in_left inp) (in_right inp) s)"
      "totalDist m = totalDist (updatePosition (in_left inp) (in_right inp) s)"
      "startTime m = startTime s" "lostCount m = lostCount s"
      "curSegment m \<notin> set TASK_LOCS \<longrightarrow> tasksComplete m = tasksComplete s"
    by blast
  have seg: "curSegment m = 0" and dist: "totalDist m = 0"
    using updatePosition_still [OF d] by (simp_all add: m(4,5) l)
  have "curSegment m \<notin> set TASK_LOCS"
    by (simp add: seg TASK_LOCS_def)
  with m(8) t have tc: "tasksComplete m = 0" by simp
  from tm have "\<not> 45000 < in_millis_end inp - startTime m"
    by (simp add: m(6) not_less)
  with m(1,2,3,6,7) seg dist tc ls show ?thesis
    by (intro exI [of _ m]) (simp add: standing_def)
qed

lemma checkEnd_standing:
  assumes "standing m" "\<not> 45000 < now - startTime m"
  shows "checkEnd now m =
    (if curLineState m = 0
     then (if 100 < lostCount m + 1 then Some Lost else None, m\<lparr>lostCount := lostCount m + 1\<rparr>)
     else (None, m\<lparr>lostCount := 0\<rparr>))"
  using assms by (simp add: checkEnd_def standing_def Let_def)

lemma robot_inv_lostCount: "robot_inv m \<Longrightarrow> robot_inv (m\<lparr>lostCount := c\<rparr>)"
  unfolding robot_inv_def by simp

lemma standing_lostCount: "standing m \<Longrightarrow> standing (m\<lparr>lostCount := c\<rparr>)"
  unfolding standing_def by (simp add: robot_inv_lostCount)

lemma running_standing: "standing s \<Longrightarrow> running s"
  by (simp add: standing_def robot_inv_def)

lemma loop_on_line:
  assumes "standing s" "scenario_tick (startTime s) ls inp" "ls \<noteq> 0"
  shows "\<exists>s'. loop inp s = Some (None, s') \<and> standing s' \<and> startTime s' = startTime s \<and>
    lostCount s' = 0"
proof -
  from loop_steps_standing [OF assms(1,2)] obtain m
    where m: "loop_steps inp s = Some (checkEnd (in_millis_end inp) m)" "standing m"
      "curLineState m = ls" "startTime m = startTime s"
      "\<not> 45000 < in_millis_end inp - startTime m"
    by blast
  have c: "checkEnd (in_millis_end inp) m = (None, m\<lparr>lostCount := 0\<rparr>)"
    using assms(3) m(3) by (simp add: checkEnd_standing [OF m(2,5)])
  show ?thesis
    using running_standing [OF assms(1)] standing_lostCount [OF m(2), of 0] m(4)
    by (intro exI [of _ "m\<lparr>lostCount := 0\<rparr>"]) (simp add: loop_def m(1) c)
qed

lemma loop_lost_continue:
  assumes "standing s" "scenario_tick (startTime s) 0 inp" "unat (lostCount s) < 100"
  shows "\<exists>s'. loop inp s = Some (None, s') \<and> standing s' \<and> startTime s' = startTime s \<and>
    unat (lostCount s') = Suc (unat (lostCount s))"
proof -
  from loop_steps_standing [OF assms(1,2)] obtain m
    where m: "loop_steps inp s = Some (checkEnd (in_millis_end inp) m)" "standing m"
      "curLineState m = 0" "startTime m = startTime s" "lostCount m = lostCount s"
      "\<not> 45000 < in_millis_end inp - startTime m"
    by blast
  have u: "unat (lostCount s + 1) = Suc (unat (lostCount s))"
    using assms(3) by (simp add: unat_word_ariths)
  then have "\<not> 100 < lostCount s + 1"
    using assms(3) by (simp add: word_less_nat_alt)
  then have c: "checkEnd (in_millis_end inp) m = (None, m\<lparr>lostCount := lostCount s + 1\<rparr>)"
    using m(3,5) by (simp add: checkEnd_standing [OF m(2,6)])
  show ?thesis
    using running_standing [OF assms(1)] standing_lostCount [OF m(2), of "lostCount s + 1"] m(4) u
    by (intro exI [of _ "m\<lparr>lostCount := lostCount s + 1\<rparr>"]) (simp add: loop_def m(1) c)
qed

lemma loop_lost_end:
  assumes "standing s" "scenario_tick (startTime s) 0 inp"
    "100 \<le> unat (lostCount s)" "unat (lostCount s) < 65535"
  shows "\<exists>s'. loop_steps inp s = Some (Some Lost, s') \<and> standing s' \<and> curSegment s' = 0 \<and>
    tasksComplete s' = 0 \<and> lostCount s' = lostCount s + 1 \<and>
    loop inp s = Some (Some Lost, endEpisode (in_millis_start inp) s')"
proof -
  from loop_steps_standing [OF assms(1,2)] obtain m
    where m: "loop_steps inp s = Some (checkEnd (in_millis_end inp) m)" "standing m"
      "curLineState m = 0" "curSegment m = 0" "lostCount m = lostCount s"
      "\<not> 45000 < in_millis_end inp - startTime m"
    by blast
  have u: "unat (lostCount s + 1) = Suc (unat (lostCount s))"
    using assms(4) by (simp add: unat_word_ariths)
  then have "100 < lostCount s + 1"
    using assms(3) by (simp add: word_less_nat_alt)
  then have c: "checkEnd (in_millis_end inp) m = (Some Lost, m\<lparr>lostCount := lostCount s + 1\<rparr>)"
    using m(3,5) by (simp add: checkEnd_standing [OF m(2,6)])
  from m(2) have "tasksComplete m = 0" by (simp add: standing_def)
  then show ?thesis
    using running_standing [OF assms(1)] standing_lostCount [OF m(2), of "lostCount s + 1"] m(4)
    by (intro exI [of _ "m\<lparr>lostCount := lostCount s + 1\<rparr>"]) (simp add: loop_def m(1) c)
qed

lemma run_loop_lost:
  assumes "standing s" "list_all (scenario_tick (startTime s) 0) inps"
    "unat (lostCount s) + length inps \<le> 100"
  shows "\<exists>s'. run_loop inps s = Some (replicate (length inps) None, s') \<and> standing s' \<and>
    startTime s' = startTime s \<and> unat (lostCount s') = unat (lostCount s) + length inps"
  using assms
proof (induction inps arbitrary: s)
  case Nil
  then show ?case by simp
next
  case (Cons inp inps)
  from Cons.prems have "scenario_tick (startTime s) 0 inp" "unat (lostCount s) < 100"
    by simp_all
  with loop_lost_continue [OF Cons.prems(1)] obtain s1
    where s1: "loop inp s = Some (None, s1)" "standing s1" "startTime s1 = startTime s"
      "unat (lostCount s1) = Suc (unat (lostCount s))"
    by blast
  from Cons.prems have "list_all (scenario_tick (startTime s1) 0) inps"
    "unat (lostCount s1) + length inps \<le> 100"
    by (simp_all add: s1(3,4))
  with Cons.IH [OF s1(2)] obtain s'
    where s': "run_loop inps s1 = Some (replicate (length inps) None, s')" "standing s'"
      "startTime s' = startTime s1" "unat (lostCount s') = unat (lostCount s1) + length inps"
    by blast
  show ?case
    using s' s1 by (intro exI [of _ s']) simp
qed

lemma run_loop_append:
  "run_loop (xs @ ys) s =
     (case run_loop xs s of
        None \<Rightarrow> None
      | Some (rs, s') \<Rightarrow>
         (case run_loop ys s' of
            None \<Rightarrow> None
          | Some (rs', s'') \<Rightarrow> Some (rs @ rs', s'')))"
  by (induction xs arbitrary: s) (auto split: option.splits)

lemma reachable_standing:
  "reachable s \<Longrightarrow> totalDist s = 0 \<Longrightarrow> tasksComplete s = 0 \<Longrightarrow> standing s"
  by (simp add: standing_def reachable_inv)

lemma endEpisode_fields:
  "lostCount (endEpisode now s) = lostCount s" "startTime (endEpisode now s) = now"
  "episode (endEpisode now s) = episode s + 1" "readings (endEpisode now s) = 0"
  "totalDist (endEpisode now s) = 0" "tasksComplete (endEpisode now s) = 0"
  by (simp_all add: endEpisode_def startEpisode_def Let_def)

lemma standing_endEpisode: "robot_inv s \<Longrightarrow> standing (endEpisode now s)"
  by (simp add: standing_def robot_inv_endEpisode endEpisode_fields)

lemma tasksComplete_le: "robot_inv s \<Longrightarrow> unat (tasksComplete s) \<le> 5"
  using flag_count_le [of "taskFlags s"] by (simp add: robot_inv_def)

lemma setup_sketch_fields:
  "totalDist (setup_sketch now) = 0" "tasksComplete (setup_sketch now) = 0"
  "lostCount (setup_sketch now) = 0" "startTime (setup_sketch now) = now"
  by (simp_all add: setup_sketch_def startEpisode_def calibrate_def initial_def)

lemma scenario_tick_center: "scenario_tick 0 4 center_tick"
  by (simp add: scenario_tick_def tick_line_state_def center_tick_def readSensors_bits_def
      NUM_SENSORS_def upt_5 readSensors_classify_def)

lemma scenario_tick_lost: "scenario_tick 0 0 lost_tick"
  by (simp add: scenario_tick_def tick_line_state_def lost_tick_def readSensors_bits_def
      NUM_SENSORS_def upt_5 readSensors_classify_def)

lemma scenario_tick_lost_next: "scenario_tick (in_millis_start lost_tick) 0 lost_tick_next"
  by (simp add: scenario_tick_def tick_line_state_def lost_tick_def lost_tick_next_def
      readSensors_bits_def NUM_SENSORS_def upt_5 readSensors_classify_def)

lemma epsilon_checkEnd: "epsilon (snd (checkEnd now s)) = epsilon s"
  by (simp add: checkEnd_def Let_def)

lemma loop_epsilon:
  assumes "robot_inv s" "loop inp s = Some (res, s')"
  shows "epsilon s' \<le> epsilon s \<and> EPS_MIN \<le> epsilon s'"
proof -
  from loop_steps_Some [OF assms(1), of inp] obtain m
    where m: "loop_steps inp s = Some (checkEnd (in_millis_end inp) m)" "epsilon m = epsilon s"
    by blast
  obtain r s1 where c: "checkEnd (in_millis_end inp) m = (r, s1)"
    by (cases "checkEnd (in_millis_end inp) m")
  with epsilon_checkEnd [of "in_millis_end inp" m] m(2) have e1: "epsilon s1 = epsilon s"
    by simp
  from assms(1) have ge: "EPS_MIN \<le> epsilon s" and run: "running s"
    by (simp_all add: robot_inv_def)
  show ?thesis
  proof (cases r)
    case None
    with assms(2) run m(1) c have "s' = s1" by (simp add: loop_def)
    with e1 ge show ?thesis by simp
  next
    case (Some reason)
    with assms(2) run m(1) c have "s' = endEpisode (in_millis_start inp) s1"
      by (simp add: loop_def)
    with e1 ge show ?thesis
      by (simp add: epsilon_endEpisode endEpisode_decay_le endEpisode_decay_ge)
  qed
qed

section \<open>A lower bound of the table entries\<close>

lemma calcReward_ge: "- 11 \<le> sint (calcReward s)"
  by (simp add: calcReward_def Let_def)

lemma sdiv_255_ge:
  "0 \<le> x \<Longrightarrow> - (255 * x + 254) \<le> k \<Longrightarrow> - x \<le> (k::int) sdiv 255"
  by (cases "0 \<le> k") (auto simp: signed_divide_int_def sgn_if)

lemma updateQ_stored_ge:
  assumes "- 11 \<le> sint r" "- 127 \<le> sint q"
  shows "- 127 \<le> sint (ucast (updateQ_newQ q
            (updateQ_update 38 (updateQ_delta (updateQ_target 242 r m) q))) :: 8 word)"
proof -
  let ?u = "updateQ_update 38 (updateQ_delta (updateQ_target 242 r m) q)"
  have "sint ?u = (uint (38 :: 8 word) *
      (sint r + (uint (242 :: 8 word) * sint m) sdiv 255 - sint q)) sdiv 255"
    by (rule updateQ_update_exact) simp
  then have u: "sint ?u = (38 * (sint r + (242 * sint m) sdiv 255 - sint q)) sdiv 255"
    by simp
  have "- (255 * 122) \<le> 242 * sint m" "242 * sint m \<le> 255 * 122"
    using sint8_ge [of m] sint8_le [of m] by simp_all
  then have "- 122 \<le> (242 * sint m) sdiv 255 \<and> (242 * sint m) sdiv 255 \<le> 122"
    by (rule sdiv_255_bounds)
  with assms have "- (255 * (sint q + 127) + 254)
      \<le> 38 * (sint r + (242 * sint m) sdiv 255 - sint q)"
    by simp
  with assms(2) have "- (sint q + 127) \<le> sint ?u"
    unfolding u by (intro sdiv_255_ge) simp_all
  then show ?thesis
    by (simp add: sint_stored_newQ)
qed

lemma Q_above_nth:
  "Q_above q \<Longrightarrow> i < length q \<Longrightarrow> j < length (q ! i) \<Longrightarrow> - 127 \<le> sint (q ! i ! j)"
  by (simp add: Q_above_def list_all_length)

lemma list_all_update: "list_all P xs \<Longrightarrow> P v \<Longrightarrow> list_all P (xs[j := v])"
  unfolding list_all_iff using set_update_subset_insert [of xs j v] by auto

lemma Q_above_update:
  assumes "Q_above q" "- 127 \<le> sint v"
  shows "Q_above (q[i := (q ! i)[j := v]])"
proof -
  have row: "list_all (\<lambda>v. - 127 \<le> sint v) (q ! n)" if "n < length q" for n
    using assms(1) that by (simp add: Q_above_def list_all_length)
  have "list_all (\<lambda>v. - 127 \<le> sint v) ((q ! i)[j := v])" if "i < length q"
    using row [OF that] assms(2) by (rule list_all_update)
  then have "list_all (\<lambda>v. - 127 \<le> sint v) (q[i := (q ! i)[j := v]] ! n)" if "n < length q" for n
    using that row [of n] by (cases "n = i") simp_all
  then show ?thesis
    by (simp add: Q_above_def list_all_length)
qed

lemma updateQ_above:
  assumes "Q_wf (Q s)" "Q_above (Q s)" "alpha s = 38" "gamma_d s = 242" "- 11 \<le> sint r"
    and "updateQ st a r st2 s = Some s'"
  shows "Q_above (Q s')"
proof -
  from assms(6) have b: "unat st < Q_TABLE_SIZE" "unat a < NUM_ACTIONS"
    by (simp_all add: updateQ_def split: if_splits)
  from assms(1) b have "unat st < length (Q s)" "unat a < length (Q s ! unat st)"
    by (simp_all add: Q_wf_def list_all_length)
  with assms(2) have q: "- 127 \<le> sint (Q s ! unat st ! unat a)"
    by (rule Q_above_nth)
  from assms(6) have "Q s' = (Q s)[unat st := (Q s ! unat st)[unat a :=
      ucast (updateQ_newQ (Q s ! unat st ! unat a)
        (updateQ_update 38 (updateQ_delta
           (updateQ_target 242 r (updateQ_maxNext (Q s ! unat st2)))
           (Q s ! unat st ! unat a))))]]"
    by (auto simp: updateQ_def Let_def assms(3,4) split: if_splits)
  then show ?thesis
    using Q_above_update [OF assms(2) updateQ_stored_ge [OF assms(5) q]] by simp
qed

lemma Q_checkEnd: "Q (snd (checkEnd now s)) = Q s"
  by (simp add: checkEnd_def Let_def)

lemma Q_endEpisode: "Q (endEpisode now s) = Q s"
  by (simp add: endEpisode_def startEpisode_def Let_def)

lemma loop_steps_Q_above:
  assumes "robot_inv s" "Q_above (Q s)" "loop_steps inp s = Some (res, s')"
  shows "Q_above (Q s')"
proof -
  define s1 where "s1 = readSensors (in_sensors inp) (in_millis_sense inp) s"
  define s2 where "s2 = updatePosition (in_left inp) (in_right inp) s1"
  have i2: "robot_inv s2"
    unfolding s2_def s1_def using assms(1)
    by (intro robot_inv_updatePosition robot_inv_readSensors)
  have q2: "Q s2 = Q s"
    by (simp add: s2_def s1_def updatePosition_frame readSensors_frame)
  from assms(3) obtain act
    where act: "selectAction (in_rnd1 inp) (in_rnd2 inp) (encodeState s2) s2 = Some act"
    unfolding loop_steps_def Let_def s1_def [symmetric] s2_def [symmetric]
    by (cases "selectAction (in_rnd1 inp) (in_rnd2 inp) (encodeState s2) s2") simp_all
  define s3 where "s3 = s2\<lparr>curAction := act\<rparr>"
  define s4 where "s4 = s3\<lparr>episodeReward := episodeReward s3 + scast (calcReward s3)\<rparr>"
  from assms(3) obtain s5
    where s5: "updateQ (encodeState s2) (curAction s4) (calcReward s3) (encodeState s4) s4 = Some s5"
      and r: "checkEnd (in_millis_end inp) (checkWaypoints s5) = (res, s')"
    unfolding loop_steps_def Let_def s1_def [symmetric] s2_def [symmetric] act option.case
      s3_def [symmetric] s4_def [symmetric]
    by (cases "updateQ (encodeState s2) (curAction s4) (calcReward s3) (encodeState s4) s4")
      simp_all
  have f4: "Q s4 = Q s" "alpha s4 = 38" "gamma_d s4 = 242"
    using i2 q2 by (simp_all add: s4_def s3_def robot_inv_def)
  have "Q_wf (Q s4)" "Q_above (Q s4)"
    using assms(1,2) by (simp_all add: f4 robot_inv_def)
  then have "Q_above (Q s5)"
    using f4(2,3) calcReward_ge [of s3] s5 by (rule updateQ_above)
  moreover have "Q s' = Q s5"
    using Q_checkEnd [of "in_millis_end inp" "checkWaypoints s5"]
    by (simp add: r checkWaypoints_frame)
  ultimately show ?thesis by simp
qed

lemma loop_Q_above:
  assumes "robot_inv s" "Q_above (Q s)" "loop inp s = Some (res, s')"
  shows "Q_above (Q s')"
proof -
  from assms(1) have run: "running s" by (simp add: robot_inv_def)
  from assms(3) run obtain r t where t: "loop_steps inp s = Some (r, t)"
    and s': "s' = t \<or> s' = endEpisode (in_millis_start inp) t"
    by (auto simp: loop_def split: option.splits prod.splits)
  from loop_steps_Q_above [OF assms(1,2) t] s' show ?thesis
    by (auto simp: Q_endEpisode)
qed

lemma Q_above_setup: "Q_above (Q (setup_sketch now))"
  by (simp add: setup_sketch_def startEpisode_def calibrate_def Q_above_def list_all_length)

lemma reachable_Q_above: "reachable s \<Longrightarrow> Q_above (Q s)"
proof (induction rule: reachable.induct)
  case (reachable_start now)
  show ?case by (rule Q_above_setup)
next
  case (reachable_loop s inp res s')
  from reachable_inv [OF reachable_loop.hyps(1)] reachable_loop.IH reachable_loop.hyps(3)
  show ?case by (rule loop_Q_above)
qed

lemma row_has_above:
  assumes "Q_wf q" "Q_above q" "i < Q_TABLE_SIZE"
  shows "list_ex (\<lambda>j. - 128 <s q ! i ! j) [0..<NUM_ACTIONS]"
proof -
  from assms(1,3) have "i < length q" "0 < length (q ! i)"
    by (simp_all add: Q_wf_def list_all_length NUM_ACTIONS_def)
  with assms(2) have "- 127 \<le> sint (q ! i ! 0)" by (rule Q_above_nth)
  then have "- 128 <s q ! i ! 0" by (simp add: word_sless_alt)
  then have "\<exists>j<5. - 128 <s q ! i ! j"
    by (intro exI [of _ 0]) simp
  then show ?thesis
    by (simp add: list_ex_upt NUM_ACTIONS_def)
qed

section \<open>Runs that end an episode\<close>

lemma tick_line_state_values:
  "tick_line_state center_tick_late = 4" "tick_line_state lost_tick_next = 0"
  "tick_line_state lost_tick = 0"
  by (simp_all add: tick_line_state_def center_tick_late_def lost_tick_next_def lost_tick_def
      readSensors_bits_def NUM_SENSORS_def upt_5 readSensors_classify_def)

lemma loop_timeout:
  assumes "robot_inv s" "45000 < in_millis_end inp - startTime s"
  shows "\<exists>s'. loop inp s = Some (Some Timeout, s') \<and> standing s' \<and>
    startTime s' = in_millis_start inp \<and> lostCount s' = lostCount s"
proof -
  from loop_steps_Some [OF assms(1), of inp] obtain m
    where m: "loop_steps inp s = Some (checkEnd (in_millis_end inp) m)" "robot_inv m"
      "startTime m = startTime s" "lostCount m = lostCount s"
    by blast
  have c: "checkEnd (in_millis_end inp) m = (Some Timeout, m)"
    using assms(2) by (simp add: checkEnd_def m(3))
  from assms(1) have "running s" by (simp add: robot_inv_def)
  then have "loop inp s = Some (Some Timeout, endEpisode (in_millis_start inp) m)"
    by (simp add: loop_def m(1) c)
  then show ?thesis
    using standing_endEpisode [OF m(2)] m(4) by (simp add: endEpisode_fields)
qed

text \<open>The scenario of two passes on the line and 101 passes off it, without wheel movement
  and within the time budget: the 101st LOST pass is the first to report, and it reports
  Lost with no task complete and the segment 0.\<close>

lemma center_center_lost_run:
  assumes "reachable s" "totalDist s = 0" "tasksComplete s = 0"
    and "scenario_tick (startTime s) 4 c1" "scenario_tick (startTime s) 4 c2"
    and "length losts = 100" "list_all (scenario_tick (startTime s) 0) losts"
    and "scenario_tick (startTime s) 0 final"
  shows "\<exists>s' s''. run_loop (c1 # c2 # losts) s = Some (replicate 102 None, s') \<and>
        loop_steps final s' = Some (Some Lost, s'') \<and>
        tasksComplete s'' = 0 \<and> curSegment s'' = 0 \<and>
        loop final s' = Some (Some Lost, endEpisode (in_millis_start final) s'')"
proof -
  have st: "standing s" using assms(1-3) by (rule reachable_standing)
  from loop_on_line [OF st assms(4)] obtain s1
    where s1: "loop c1 s = Some (None, s1)" "standing s1" "startTime s1 = startTime s"
    by auto
  from loop_on_line [OF s1(2), of 4 c2] assms(5) obtain s2
    where s2: "loop c2 s1 = Some (None, s2)" "standing s2" "startTime s2 = startTime s"
      "lostCount s2 = 0"
    by (auto simp: s1(3))
  from run_loop_lost [OF s2(2), of losts] assms(6,7) obtain s3
    where s3: "run_loop losts s2 = Some (replicate 100 None, s3)" "standing s3"
      "startTime s3 = startTime s" "unat (lostCount s3) = 100"
    by (auto simp: s2(3,4))
  from loop_lost_end [OF s3(2), of final] assms(8) obtain s4
    where s4: "loop_steps final s3 = Some (Some Lost, s4)" "curSegment s4 = 0"
      "tasksComplete s4 = 0" "loop final s3 = Some (Some Lost, endEpisode (in_millis_start final) s4)"
    by (auto simp: s3(3,4))
  have "replicate 102 (None :: end_reason option) = None # None # replicate 100 None"
    by (simp add: numeral_eq_Suc)
  then have "run_loop (c1 # c2 # losts) s = Some (replicate 102 None, s3)"
    by (simp add: s1(1) s2(1) s3(1))
  with s4 show ?thesis
    by blast
qed

section \<open>The claims\<close>

text \<open>
  C1. After a call of \<open>updateQ\<close> (with indices inside the array, as all calls of the sketch
  are), every entry of the table, for state indices 0 to 79 and actions 0 to 4, reads as a
  value between -128 and 127. The entry written is the old entry plus the update, the sum
  taken in the integers and then clamped to -128 and 127: it is saturated, not wrapped.
  All other entries are the old ones. With the learning rate of the sketch (38, or any
  rate up to 85) the update itself is the integer one, with truncating divisions: no
  16-bit intermediate value wraps either.
\<close>

theorem updateQ_saturates:
  assumes "Q_wf (Q s)" "unat st < Q_TABLE_SIZE" "unat a < NUM_ACTIONS" "unat st2 < Q_TABLE_SIZE"
  shows "\<exists>s'. updateQ st a r st2 s = Some s' \<and> Q_wf (Q s') \<and>
     sint (Q s' ! unat st ! unat a) =
       max (- 128) (min 127 (sint (Q s ! unat st ! unat a) +
         sint (updateQ_update (alpha s)
                (updateQ_delta (updateQ_target (gamma_d s) r (updateQ_maxNext (Q s ! unat st2)))
                   (Q s ! unat st ! unat a))))) \<and>
     (unat (alpha s) \<le> 85 \<longrightarrow>
        sint (updateQ_update (alpha s)
                (updateQ_delta (updateQ_target (gamma_d s) r (updateQ_maxNext (Q s ! unat st2)))
                   (Q s ! unat st ! unat a)))
          = (uint (alpha s) *
               (sint r + (uint (gamma_d s) * sint (updateQ_maxNext (Q s ! unat st2))) sdiv 255
                  - sint (Q s ! unat st ! unat a))) sdiv 255) \<and>
     (\<forall>i<Q_TABLE_SIZE. \<forall>j<NUM_ACTIONS.
        - 128 \<le> sint (Q s' ! i ! j) \<and> sint (Q s' ! i ! j) \<le> 127 \<and>
        ((i, j) \<noteq> (unat st, unat a) \<longrightarrow> Q s' ! i ! j = Q s ! i ! j))"
  using assms
  by (simp add: updateQ_def Let_def Q_wf_update Q_update_nth sint_stored_newQ sint8_ge sint8_le
      updateQ_update_exact)

theorem updateQ_saturates_witness:
  "Q_wf (Q (initial\<lparr>Q := replicate 80 (replicate 5 127)\<rparr>)) \<and> unat (3 :: 8 word) < Q_TABLE_SIZE \<and>
   unat (2 :: 8 word) < NUM_ACTIONS \<and> unat (4 :: 8 word) < Q_TABLE_SIZE \<and>
   unat (alpha (initial\<lparr>Q := replicate 80 (replicate 5 127)\<rparr>)) \<le> 85 \<and>
   (127 + (38 * (127 + (242 * 127) sdiv 255 - 127)) sdiv 255 :: int) = 144 \<and>
   (\<exists>s'. updateQ 3 2 127 4 (initial\<lparr>Q := replicate 80 (replicate 5 127)\<rparr>) = Some s' \<and>
      sint (Q s' ! unat (3 :: 8 word) ! unat (2 :: 8 word)) = 127)"
proof -
  let ?s = "initial\<lparr>Q := replicate 80 (replicate 5 127)\<rparr>"
  have h: "Q_wf (Q ?s)" "unat (3 :: 8 word) < Q_TABLE_SIZE"
    "unat (2 :: 8 word) < NUM_ACTIONS" "unat (4 :: 8 word) < Q_TABLE_SIZE"
    by (simp_all add: Q_wf_replicate Q_TABLE_SIZE_def NUM_ACTIONS_def)
  have al: "unat (alpha ?s) \<le> 85"
    by (simp add: initial_def)
  have m: "updateQ_maxNext (Q ?s ! unat (4 :: 8 word)) = 127"
    by (simp add: updateQ_maxNext_def NUM_ACTIONS_def upt_5 word_sless_alt)
  have q: "Q ?s ! unat (3 :: 8 word) ! unat (2 :: 8 word) = 127"
    by simp
  have p: "alpha ?s = 38" "gamma_d ?s = 242"
    by (simp_all add: initial_def)
  have ar: "(127 + (38 * (127 + (242 * 127) sdiv 255 - 127)) sdiv 255 :: int) = 144"
    by simp
  from updateQ_saturates [OF h, of 127] al obtain s'
    where s': "updateQ 3 2 127 4 ?s = Some s'"
      "sint (Q s' ! unat (3 :: 8 word) ! unat (2 :: 8 word)) =
       max (- 128) (min 127 (sint (Q ?s ! unat (3 :: 8 word) ! unat (2 :: 8 word)) +
         sint (updateQ_update (alpha ?s)
                (updateQ_delta (updateQ_target (gamma_d ?s) 127 (updateQ_maxNext (Q ?s ! unat (4 :: 8 word))))
                   (Q ?s ! unat (3 :: 8 word) ! unat (2 :: 8 word))))))"
      "sint (updateQ_update (alpha ?s)
                (updateQ_delta (updateQ_target (gamma_d ?s) 127 (updateQ_maxNext (Q ?s ! unat (4 :: 8 word))))
                   (Q ?s ! unat (3 :: 8 word) ! unat (2 :: 8 word)))) 
          = (uint (alpha ?s) *
               (sint (127 :: 8 word) + (uint (gamma_d ?s) * sint (updateQ_maxNext (Q ?s ! unat (4 :: 8 word)))) sdiv 255
                  - sint (Q ?s ! unat (3 :: 8 word) ! unat (2 :: 8 word)))) sdiv 255"
    by blast
  from s'(2) have "sint (Q s' ! unat (3 :: 8 word) ! unat (2 :: 8 word)) = 127"
    unfolding s'(3) unfolding m q p by simp
  with s'(1) h al ar show ?thesis
    by blast
qed

text \<open>
  C5. With alpha = 38, gamma = 242, reward 7, the entry \<open>Q[s][a]\<close> equal to 0 and the five
  entries of the next state equal to 0: the maximum over the next state is 0, the target
  is 7, the delta is 7, the update is 38 * 7 / 255 = 1 by truncating division, and
  \<open>updateQ\<close> stores 1 in \<open>Q[s][a]\<close>.
\<close>

theorem updateQ_scenario:
  assumes "Q_wf (Q s)" "alpha s = 38" "gamma_d s = 242"
    and "unat st < Q_TABLE_SIZE" "unat a < NUM_ACTIONS" "unat st2 < Q_TABLE_SIZE"
    and "Q s ! unat st ! unat a = 0" "Q s ! unat st2 = replicate NUM_ACTIONS 0"
  shows "updateQ_maxNext (Q s ! unat st2) = 0 \<and>
     updateQ_target (gamma_d s) 7 0 = 7 \<and>
     updateQ_delta 7 0 = 7 \<and>
     updateQ_update (alpha s) 7 = 1 \<and>
     (38 * 7 :: int) sdiv 255 = 1 \<and>
     (\<exists>s'. updateQ st a 7 st2 s = Some s' \<and> Q s' ! unat st ! unat a = 1)"
proof -
  have m: "updateQ_maxNext (Q s ! unat st2) = 0"
    using assms(8) by (simp add: updateQ_maxNext_zero)
  have t: "updateQ_target 242 7 0 = 7"
    by (simp add: updateQ_target_def c_sdiv_def)
  have d: "updateQ_delta 7 0 = 7"
    by (simp add: updateQ_delta_def)
  have u: "updateQ_update 38 7 = 1"
    by (simp add: updateQ_update_def c_sdiv_def)
  have n: "updateQ_newQ 0 1 = 1"
    by (simp add: updateQ_newQ_def word_sless_alt)
  have "\<exists>s'. updateQ st a 7 st2 s = Some s' \<and> Q s' ! unat st ! unat a = 1"
    using assms(1-7)
    by (simp add: updateQ_def Let_def m t d u n Q_update_nth)
  then show ?thesis
    using assms(2,3) by (simp add: m t d u)
qed

theorem updateQ_scenario_witness:
  "Q_wf (Q initial) \<and> alpha initial = 38 \<and> gamma_d initial = 242 \<and>
   unat (40 :: 8 word) < Q_TABLE_SIZE \<and> unat (2 :: 8 word) < NUM_ACTIONS \<and>
   unat (41 :: 8 word) < Q_TABLE_SIZE \<and>
   Q initial ! unat (40 :: 8 word) ! unat (2 :: 8 word) = 0 \<and>
   Q initial ! unat (41 :: 8 word) = replicate NUM_ACTIONS 0 \<and>
   (\<exists>s'. updateQ 40 2 7 41 initial = Some s' \<and>
      Q s' ! unat (40 :: 8 word) ! unat (2 :: 8 word) = 1)"
proof -
  have h: "Q_wf (Q initial)" "alpha initial = 38" "gamma_d initial = 242"
    "unat (40 :: 8 word) < Q_TABLE_SIZE" "unat (2 :: 8 word) < NUM_ACTIONS"
    "unat (41 :: 8 word) < Q_TABLE_SIZE"
    "Q initial ! unat (40 :: 8 word) ! unat (2 :: 8 word) = 0"
    "Q initial ! unat (41 :: 8 word) = replicate NUM_ACTIONS 0"
    by (simp_all add: Q_wf_initial) (simp_all add: Q_TABLE_SIZE_def NUM_ACTIONS_def initial_def)
  from updateQ_scenario [OF h] h show ?thesis
    by blast
qed

text \<open>
  C8. \<open>startEpisode\<close> sets the task count, the task flags, the crossings, the centred
  and total reading counts and the segment to zero, and with them the episode reward and
  the distance; it leaves the Q-value table and the best reward as they were.
\<close>

theorem startEpisode_resets:
  "tasksComplete (startEpisode now s) = 0 \<and> taskFlags (startEpisode now s) = 0 \<and>
   crossings (startEpisode now s) = 0 \<and> centered (startEpisode now s) = 0 \<and>
   readings (startEpisode now s) = 0 \<and> curSegment (startEpisode now s) = 0 \<and>
   episodeReward (startEpisode now s) = 0 \<and> totalDist (startEpisode now s) = 0 \<and>
   Q (startEpisode now s) = Q s \<and> bestReward (startEpisode now s) = bestReward s"
  by (simp add: startEpisode_def)

text \<open>
  C2, evaluated where it fails. With all five readings over the threshold the bit mask is
  31; the test of the centre bit comes first in the chain, so the line state is 4 (centre),
  and the branch that increments \<open>crossings\<close> is never taken: 3000 ms after the start of the
  episode the counter is what it was. (By \<open>readSensors_crossings\<close> no reading at any time
  changes it.)
\<close>

theorem readSensors_all_bits_set:
  "readSensors_bits [1000, 1000, 1000, 1000, 1000] = 31 \<and>
   2000 < (startTime s + 3000) - startTime s \<and>
   curLineState (readSensors [1000, 1000, 1000, 1000, 1000] (startTime s + 3000) s) = 4 \<and>
   crossings (readSensors [1000, 1000, 1000, 1000, 1000] (startTime s + 3000) s) = crossings s"
  by (simp add: readSensors_def readSensors_classify_def Let_def readSensors_bits_all)

text \<open>
  C6. For an exploration rate of at least \<open>EPS_MIN\<close> (and at most 255, as every 8-bit value
  is), the decay at the end of an episode yields \<open>max EPS_MIN (epsilon * EPS_DECAY div 255)\<close>,
  a value not above the old rate and not below \<open>EPS_MIN\<close>; so along successive decays the
  rate never increases and never falls below \<open>EPS_MIN\<close>. In a run of the sketch, no pass
  of \<open>loop\<close> increases the rate or leaves it below \<open>EPS_MIN\<close>.
\<close>

theorem epsilon_decay_monotone:
  assumes "EPS_MIN \<le> epsilon s"
  shows "epsilon (endEpisode now s) \<le> epsilon s \<and> EPS_MIN \<le> epsilon (endEpisode now s) \<and>
    unat (epsilon (endEpisode now s)) = max (unat EPS_MIN) (unat (epsilon s) * unat EPS_DECAY div 255) \<and>
    (\<forall>n. (endEpisode_decay ^^ Suc n) (epsilon s) \<le> (endEpisode_decay ^^ n) (epsilon s) \<and>
         EPS_MIN \<le> (endEpisode_decay ^^ n) (epsilon s)) \<and>
    (\<forall>t inp res t'. reachable t \<and> loop inp t = Some (res, t')
         \<longrightarrow> epsilon t' \<le> epsilon t \<and> EPS_MIN \<le> epsilon t')"
proof (intro conjI allI impI)
  show "epsilon (endEpisode now s) \<le> epsilon s"
    using assms by (simp add: epsilon_endEpisode endEpisode_decay_le)
  show "EPS_MIN \<le> epsilon (endEpisode now s)"
    by (simp add: epsilon_endEpisode endEpisode_decay_ge)
  show "unat (epsilon (endEpisode now s))
      = max (unat EPS_MIN) (unat (epsilon s) * unat EPS_DECAY div 255)"
    by (simp add: epsilon_endEpisode unat_endEpisode_decay EPS_MIN_def EPS_DECAY_def)
next
  fix n
  show ge: "EPS_MIN \<le> (endEpisode_decay ^^ n) (epsilon s)"
    using assms by (rule endEpisode_decay_funpow_ge)
  then have "endEpisode_decay ((endEpisode_decay ^^ n) (epsilon s))
      \<le> (endEpisode_decay ^^ n) (epsilon s)"
    by (rule endEpisode_decay_le)
  then show "(endEpisode_decay ^^ Suc n) (epsilon s) \<le> (endEpisode_decay ^^ n) (epsilon s)"
    by simp
next
  fix t inp res and t' :: robot
  assume a: "reachable t \<and> loop inp t = Some (res, t')"
  then have "robot_inv t" by (simp add: reachable_inv)
  with a have "epsilon t' \<le> epsilon t \<and> EPS_MIN \<le> epsilon t'"
    by (intro loop_epsilon) auto
  then show "epsilon t' \<le> epsilon t" "EPS_MIN \<le> epsilon t'"
    by simp_all
qed

theorem epsilon_decay_monotone_witness:
  "EPS_MIN \<le> epsilon initial \<and>
   epsilon (endEpisode 0 initial) \<le> epsilon initial \<and> EPS_MIN \<le> epsilon (endEpisode 0 initial) \<and>
   epsilon (endEpisode 0 initial) = 76 \<and>
   reachable (setup_sketch 0) \<and>
   (\<exists>res t'. loop center_tick (setup_sketch 0) = Some (res, t') \<and>
      epsilon t' \<le> epsilon (setup_sketch 0) \<and> EPS_MIN \<le> epsilon t')"
proof -
  have h: "EPS_MIN \<le> epsilon initial"
    by (simp add: EPS_MIN_def initial_def)
  have v: "epsilon (endEpisode 0 initial) = 76"
    by (simp add: epsilon_endEpisode endEpisode_decay_def EPS_MIN_def EPS_DECAY_def initial_def)
  have r: "reachable (setup_sketch 0)"
    by (rule reachable_start)
  from loop_Some [OF reachable_inv [OF r], of center_tick] obtain res t'
    where l: "loop center_tick (setup_sketch 0) = Some (res, t')"
    by blast
  from epsilon_decay_monotone [OF h, of 0] r l
  have "epsilon (endEpisode 0 initial) \<le> epsilon initial \<and>
    EPS_MIN \<le> epsilon (endEpisode 0 initial) \<and>
    epsilon t' \<le> epsilon (setup_sketch 0) \<and> EPS_MIN \<le> epsilon t'"
    by blast
  with h v r l show ?thesis
    by blast
qed

text \<open>
  C7. For a target segment \<open>TASK_LOCS ! i\<close> equal to the current segment: when its flag bit
  is already set, \<open>checkWaypoints\<close> changes nothing at all (so neither the task count, nor
  the flags, nor the episode reward); when it is not set, the bit is set, the task count
  is incremented and 30 is added to the episode reward. Running the check a second time
  changes nothing.
\<close>

theorem checkWaypoints_idempotent:
  assumes "i < 5" "curSegment s = TASK_LOCS ! i"
  shows "(bit (taskFlags s) i \<longrightarrow> checkWaypoints s = s) \<and>
    (\<not> bit (taskFlags s) i \<longrightarrow>
       taskFlags (checkWaypoints s) = taskFlags s OR push_bit i 1 \<and>
       bit (taskFlags (checkWaypoints s)) i \<and>
       tasksComplete (checkWaypoints s) = tasksComplete s + 1 \<and>
       episodeReward (checkWaypoints s) = episodeReward s + 30) \<and>
    checkWaypoints (checkWaypoints s) = checkWaypoints s"
proof (intro conjI impI)
  have a: "checkWaypoints t = checkWaypoints_step t i" if "curSegment t = curSegment s" for t
    using assms that by (intro checkWaypoints_at) auto
  show "checkWaypoints s = s" if "bit (taskFlags s) i"
    using that by (simp add: a checkWaypoints_step_done)
  have f: "checkWaypoints s =
    s\<lparr>taskFlags := taskFlags s OR push_bit i 1,
      tasksComplete := tasksComplete s + 1,
      episodeReward := episodeReward s + 30\<rparr>" if "\<not> bit (taskFlags s) i"
    by (simp only: a [OF refl]) (rule checkWaypoints_step_first [OF assms(2) that])
  show "taskFlags (checkWaypoints s) = taskFlags s OR push_bit i 1" if "\<not> bit (taskFlags s) i"
    by (simp only: f [OF that]) simp
  show "bit (taskFlags (checkWaypoints s)) i" if "\<not> bit (taskFlags s) i"
    using bit_set_flag [OF assms(1), of "taskFlags s"] by (simp only: f [OF that]) simp
  show "tasksComplete (checkWaypoints s) = tasksComplete s + 1" if "\<not> bit (taskFlags s) i"
    by (simp only: f [OF that]) simp
  show "episodeReward (checkWaypoints s) = episodeReward s + 30" if "\<not> bit (taskFlags s) i"
    by (simp only: f [OF that]) simp
  show "checkWaypoints (checkWaypoints s) = checkWaypoints s"
  proof (cases "bit (taskFlags s) i")
    case True
    then have "checkWaypoints s = s" by (simp add: a checkWaypoints_step_done)
    then show ?thesis by simp
  next
    case False
    have "bit (taskFlags (checkWaypoints_step s i)) i"
      using bit_set_flag [OF assms(1), of "taskFlags s"]
      by (simp only: checkWaypoints_step_first [OF assms(2) False]) simp
    then have "checkWaypoints_step (checkWaypoints_step s i) i = checkWaypoints_step s i"
      by (rule checkWaypoints_step_done)
    then show ?thesis
      by (simp add: a)
  qed
qed

theorem checkWaypoints_idempotent_witness:
  "(0::nat) < 5 \<and> curSegment (initial\<lparr>curSegment := 5\<rparr>) = TASK_LOCS ! 0 \<and>
   \<not> bit (taskFlags (initial\<lparr>curSegment := 5\<rparr>)) 0 \<and>
   tasksComplete (checkWaypoints (initial\<lparr>curSegment := 5\<rparr>)) = 1 \<and>
   episodeReward (checkWaypoints (initial\<lparr>curSegment := 5\<rparr>)) = 30 \<and>
   bit (taskFlags (checkWaypoints (initial\<lparr>curSegment := 5\<rparr>))) 0 \<and>
   checkWaypoints (checkWaypoints (initial\<lparr>curSegment := 5\<rparr>))
     = checkWaypoints (initial\<lparr>curSegment := 5\<rparr>)"
proof -
  have h: "(0::nat) < 5" "curSegment (initial\<lparr>curSegment := 5\<rparr>) = TASK_LOCS ! 0"
    by (simp_all add: TASK_LOCS_def)
  have n: "\<not> bit (taskFlags (initial\<lparr>curSegment := 5\<rparr>)) 0"
    by (simp add: initial_def)
  have z: "tasksComplete (initial\<lparr>curSegment := 5\<rparr>) = 0"
    "episodeReward (initial\<lparr>curSegment := 5\<rparr>) = 0"
    by (simp_all add: initial_def)
  from checkWaypoints_idempotent [OF h] n
  have r: "bit (taskFlags (checkWaypoints (initial\<lparr>curSegment := 5\<rparr>))) 0"
    "tasksComplete (checkWaypoints (initial\<lparr>curSegment := 5\<rparr>))
       = tasksComplete (initial\<lparr>curSegment := 5\<rparr>) + 1"
    "episodeReward (checkWaypoints (initial\<lparr>curSegment := 5\<rparr>))
       = episodeReward (initial\<lparr>curSegment := 5\<rparr>) + 30"
    "checkWaypoints (checkWaypoints (initial\<lparr>curSegment := 5\<rparr>))
       = checkWaypoints (initial\<lparr>curSegment := 5\<rparr>)"
    by blast+
  from r(2,3) have "tasksComplete (checkWaypoints (initial\<lparr>curSegment := 5\<rparr>)) = 1"
    "episodeReward (checkWaypoints (initial\<lparr>curSegment := 5\<rparr>)) = 30"
    by (simp_all only: z) simp_all
  with h n r(1,4) show ?thesis
    by (intro conjI)
qed

text \<open>
  C4. In every state the sketch reaches, and for every row of the table, the exploitation
  path of \<open>selectAction\<close> (the random draw is not below the exploration rate) returns the
  action whose stored value is the greatest of the row, and among tied maxima the lowest
  action. The result depends on the row only: any state with the same row gives the same
  action. The same holds of the call that \<open>loop\<close> makes after \<open>readSensors\<close> and
  \<open>updatePosition\<close>.
\<close>

theorem selectAction_best:
  assumes "reachable s" "\<not> random_max rnd1 255 < unat (epsilon s)" "unat state < Q_TABLE_SIZE"
  shows "\<exists>act. selectAction rnd1 rnd2 state s = Some act \<and>
      is_first_max (Q s ! unat state) (unat act) \<and>
      (\<forall>s' r1 r2. \<not> random_max r1 255 < unat (epsilon s') \<and> Q s' ! unat state = Q s ! unat state
          \<longrightarrow> selectAction r1 r2 state s' = Some act) \<and>
      (\<forall>vals now l r. \<exists>s2 act2.
          s2 = updatePosition l r (readSensors vals now s) \<and>
          selectAction rnd1 rnd2 (encodeState s2) s2 = Some act2 \<and>
          is_first_max (Q s2 ! unat (encodeState s2)) (unat act2))"
proof -
  have i: "robot_inv s" using assms(1) by (rule reachable_inv)
  then have wf: "Q_wf (Q s)" by (simp add: robot_inv_def)
  have ab: "Q_above (Q s)" using assms(1) by (rule reachable_Q_above)
  have best: "selectAction rnd1 rnd2 st t = Some (snd (selectAction_scan (Q s ! unat st))) \<and>
      is_first_max (Q s ! unat st) (unat (snd (selectAction_scan (Q s ! unat st))))"
    if "unat st < Q_TABLE_SIZE" "Q t = Q s" "epsilon t = epsilon s" for st t
    using that assms(2) row_has_above [OF wf ab that(1)]
      selectAction_scan_best(3) [of "Q s ! unat st"]
    by (simp add: selectAction_def)
  have call: "\<exists>s2 act2. s2 = updatePosition l r (readSensors vals now s) \<and>
          selectAction rnd1 rnd2 (encodeState s2) s2 = Some act2 \<and>
          is_first_max (Q s2 ! unat (encodeState s2)) (unat act2)" for vals now l r
  proof -
    let ?s2 = "updatePosition l r (readSensors vals now s)"
    have "robot_inv ?s2"
      using i by (intro robot_inv_updatePosition robot_inv_readSensors)
    then have b: "unat (encodeState ?s2) < Q_TABLE_SIZE"
      by (intro encodeState_bound) (simp_all add: robot_inv_def)
    have f: "Q ?s2 = Q s" "epsilon ?s2 = epsilon s"
      by (simp_all add: updatePosition_frame readSensors_frame)
    from best [OF b f] show ?thesis
      by (simp add: f)
  qed
  let ?a = "snd (selectAction_scan (Q s ! unat state))"
  from best [OF assms(3) refl refl]
  have a: "selectAction rnd1 rnd2 state s = Some ?a" "is_first_max (Q s ! unat state) (unat ?a)"
    by simp_all
  have det: "\<forall>s' r1 r2. \<not> random_max r1 255 < unat (epsilon s') \<and>
      Q s' ! unat state = Q s ! unat state \<longrightarrow> selectAction r1 r2 state s' = Some ?a"
    using assms(3) by (simp add: selectAction_def)
  from call have "\<forall>vals now l r. \<exists>s2 act2.
          s2 = updatePosition l r (readSensors vals now s) \<and>
          selectAction rnd1 rnd2 (encodeState s2) s2 = Some act2 \<and>
          is_first_max (Q s2 ! unat (encodeState s2)) (unat act2)"
    by blast
  with a det show ?thesis
    by (intro exI [of _ ?a] conjI)
qed

theorem selectAction_best_witness:
  "reachable (setup_sketch 0) \<and> \<not> random_max 254 255 < unat (epsilon (setup_sketch 0)) \<and>
   unat (0 :: 8 word) < Q_TABLE_SIZE \<and>
   selectAction 254 0 0 (setup_sketch 0) = Some 0 \<and>
   is_first_max (Q (setup_sketch 0) ! unat (0 :: 8 word)) (unat (0 :: 8 word))"
proof -
  have h: "reachable (setup_sketch 0)" "\<not> random_max 254 255 < unat (epsilon (setup_sketch 0))"
    "unat (0 :: 8 word) < Q_TABLE_SIZE"
    by (simp_all add: reachable_start)
      (simp_all add: random_max_def setup_sketch_def startEpisode_def
        calibrate_def initial_def Q_TABLE_SIZE_def)
  have v: "selectAction 254 0 0 (setup_sketch 0) = Some 0"
    by (simp add: selectAction_def random_max_def setup_sketch_def startEpisode_def
        calibrate_def initial_def Q_TABLE_SIZE_def selectAction_scan_def selectAction_step_def
        NUM_ACTIONS_def upt_5 word_sless_alt)
  from selectAction_best [OF h, of 0] v h show ?thesis
    by auto
qed

text \<open>
  C3. The state index \<open>curSegment * 8 + curLineState\<close> is injective for segments 0 to 9 and
  line states 0 to 7, is computed without wrap-around there and is at most 79. Whatever
  the readings and encoder counts, \<open>readSensors\<close> leaves a line state of at most 7 and
  \<open>updatePosition\<close> a segment of at most 9, so the index after them is at most 79. In every
  state the sketch reaches the index is at most 79, and a pass of \<open>loop\<close> never reads or
  writes \<open>Q\<close> outside the array (it returns a result).
\<close>

theorem encodeState_in_bounds:
  "(\<forall>s s'. unat (curSegment s) \<le> 9 \<and> unat (curLineState s) \<le> 7 \<and>
       unat (curSegment s') \<le> 9 \<and> unat (curLineState s') \<le> 7 \<and>
       encodeState s = encodeState s'
       \<longrightarrow> curSegment s = curSegment s' \<and> curLineState s = curLineState s') \<and>
   (\<forall>s. unat (curSegment s) \<le> 9 \<and> unat (curLineState s) \<le> 7
       \<longrightarrow> unat (encodeState s) = unat (curSegment s) * 8 + unat (curLineState s) \<and>
           unat (encodeState s) \<le> 79) \<and>
   (\<forall>vals now l r s.
       unat (curLineState (readSensors vals now s)) \<le> 7 \<and>
       unat (curSegment (updatePosition l r s)) \<le> 9 \<and>
       unat (encodeState (updatePosition l r (readSensors vals now s))) \<le> 79) \<and>
   (\<forall>s. reachable s \<longrightarrow>
       unat (curSegment s) \<le> 9 \<and> unat (curLineState s) \<le> 7 \<and> unat (encodeState s) \<le> 79 \<and>
       (\<forall>inp. \<exists>res s'. loop inp s = Some (res, s')))"
proof (intro conjI allI impI)
  fix s s' :: robot
  assume a: "unat (curSegment s) \<le> 9 \<and> unat (curLineState s) \<le> 7 \<and>
       unat (curSegment s') \<le> 9 \<and> unat (curLineState s') \<le> 7 \<and>
       encodeState s = encodeState s'"
  then have b: "unat (curSegment s) < NUM_SEGMENTS" "unat (curLineState s) < NUM_LINE_STATES"
    "unat (curSegment s') < NUM_SEGMENTS" "unat (curLineState s') < NUM_LINE_STATES"
    by (simp_all add: NUM_SEGMENTS_def NUM_LINE_STATES_def)
  from a have "unat (encodeState s) = unat (encodeState s')" by simp
  then have "unat (curSegment s) * 8 + unat (curLineState s)
      = unat (curSegment s') * 8 + unat (curLineState s')"
    unfolding encodeState_unat [OF b(1,2)] encodeState_unat [OF b(3,4)] .
  moreover from a have "unat (curLineState s) < 8" "unat (curLineState s') < 8"
    by simp_all
  ultimately have "unat (curSegment s) = unat (curSegment s') \<and>
    unat (curLineState s) = unat (curLineState s')"
    by (intro encode_nat_inj)
  then show "curSegment s = curSegment s'" "curLineState s = curLineState s'"
    by (simp_all add: word_unat_eq_iff)
next
  fix s :: robot
  assume a: "unat (curSegment s) \<le> 9 \<and> unat (curLineState s) \<le> 7"
  then show e: "unat (encodeState s) = unat (curSegment s) * 8 + unat (curLineState s)"
    by (simp add: encodeState_unat NUM_SEGMENTS_def NUM_LINE_STATES_def)
  from a show "unat (encodeState s) \<le> 79"
    by (simp add: e)
next
  fix vals now l r and s :: robot
  show ls: "unat (curLineState (readSensors vals now s)) \<le> 7"
    using readSensors_classify_range [of "readSensors_bits vals"]
    by (simp add: curLineState_readSensors)
  show "unat (curSegment (updatePosition l r s)) \<le> 9"
    using curSegment_updatePosition [of l r s] by (simp add: NUM_SEGMENTS_def)
  have "unat (encodeState (updatePosition l r (readSensors vals now s))) < Q_TABLE_SIZE"
    using ls curSegment_updatePosition [of l r "readSensors vals now s"]
    by (intro encodeState_bound) (simp_all add: updatePosition_frame NUM_LINE_STATES_def)
  then show "unat (encodeState (updatePosition l r (readSensors vals now s))) \<le> 79"
    by (simp add: Q_TABLE_SIZE_def)
next
  fix s :: robot
  assume "reachable s"
  then have i: "robot_inv s" by (rule reachable_inv)
  then show "unat (curSegment s) \<le> 9" "unat (curLineState s) \<le> 7"
    by (simp_all add: robot_inv_def NUM_SEGMENTS_def NUM_LINE_STATES_def)
  from i have "unat (encodeState s) < Q_TABLE_SIZE"
    by (intro encodeState_bound) (simp_all add: robot_inv_def)
  then show "unat (encodeState s) \<le> 79"
    by (simp add: Q_TABLE_SIZE_def)
  fix inp
  from loop_Some [OF i, of inp] show "\<exists>res s'. loop inp s = Some (res, s')"
    by blast
qed

theorem encodeState_in_bounds_witness:
  "unat (curSegment (initial\<lparr>curSegment := 9, curLineState := 7\<rparr>)) \<le> 9 \<and>
   unat (curLineState (initial\<lparr>curSegment := 9, curLineState := 7\<rparr>)) \<le> 7 \<and>
   unat (encodeState (initial\<lparr>curSegment := 9, curLineState := 7\<rparr>)) = 79 \<and>
   reachable (setup_sketch 0) \<and> unat (encodeState (setup_sketch 0)) \<le> 79 \<and>
   (\<exists>res s'. loop center_tick (setup_sketch 0) = Some (res, s'))"
proof -
  have h: "unat (curSegment (initial\<lparr>curSegment := 9, curLineState := 7\<rparr>)) \<le> 9 \<and>
    unat (curLineState (initial\<lparr>curSegment := 9, curLineState := 7\<rparr>)) \<le> 7"
    by simp
  have r: "reachable (setup_sketch 0)" by (rule reachable_start)
  from encodeState_in_bounds h
  have "unat (encodeState (initial\<lparr>curSegment := 9, curLineState := 7\<rparr>))
      = unat (curSegment (initial\<lparr>curSegment := 9, curLineState := 7\<rparr>)) * 8
        + unat (curLineState (initial\<lparr>curSegment := 9, curLineState := 7\<rparr>))"
    by blast
  then have e: "unat (encodeState (initial\<lparr>curSegment := 9, curLineState := 7\<rparr>)) = 79"
    by simp
  from encodeState_in_bounds r
  have "unat (encodeState (setup_sketch 0)) \<le> 79 \<and>
    (\<exists>res s'. loop center_tick (setup_sketch 0) = Some (res, s'))"
    by blast
  with h e r show ?thesis by blast
qed

text \<open>
  C9, evaluated where it fails. From the state after \<open>setup()\<close>: 100 passes with no line
  under any sensor report nothing and leave the counter of \<open>checkEnd\<close> at 100; a pass with
  the line under the centre sensor, 50 s after the start, reports the timeout before the
  counter is looked at; the next episode starts with the counter still at 100, and its
  first pass without a line reports "lost", although the line state has been LOST for one
  pass only. (The scenario of the claim itself does end as lost on the 101st LOST pass:
  \<open>center_center_lost_run\<close>.)
\<close>

theorem lost_reported_after_one_LOST_pass:
  "(\<exists>s'. run_loop (replicate 100 lost_tick @ [center_tick_late, lost_tick_next]) (setup_sketch 0)
       = Some (replicate 100 None @ [Some Timeout, Some Lost], s')) \<and>
   tick_line_state center_tick_late = 4 \<and> tick_line_state lost_tick_next = 0 \<and>
   lost_streak (replicate 100 lost_tick @ [center_tick_late, lost_tick_next]) = 1"
proof (intro conjI)
  have st: "standing (setup_sketch 0)"
    by (intro reachable_standing reachable_start setup_sketch_fields)
  have "list_all (scenario_tick (startTime (setup_sketch 0)) 0) (replicate 100 lost_tick)"
    by (simp add: setup_sketch_fields scenario_tick_lost list_all_iff)
  with run_loop_lost [OF st, of "replicate 100 lost_tick"] obtain s3
    where s3: "run_loop (replicate 100 lost_tick) (setup_sketch 0) = Some (replicate 100 None, s3)"
      "standing s3" "startTime s3 = 0" "unat (lostCount s3) = 100"
    by (auto simp: setup_sketch_fields)
  from s3(2) have i3: "robot_inv s3" by (simp add: standing_def)
  have "45000 < in_millis_end center_tick_late - startTime s3"
    by (simp add: s3(3) center_tick_late_def)
  with loop_timeout [OF i3, of center_tick_late] obtain s4
    where s4: "loop center_tick_late s3 = Some (Some Timeout, s4)" "standing s4"
      "startTime s4 = 60000" "lostCount s4 = lostCount s3"
    by (auto simp: center_tick_late_def)
  have "scenario_tick (startTime s4) 0 lost_tick_next"
    using scenario_tick_lost_next by (simp add: s4(3) lost_tick_def)
  with loop_lost_end [OF s4(2), of lost_tick_next] obtain s5
    where s5: "loop lost_tick_next s4 = Some (Some Lost, s5)"
    by (auto simp: s4(4) s3(4))
  have "run_loop (replicate 100 lost_tick @ [center_tick_late, lost_tick_next]) (setup_sketch 0)
      = Some (replicate 100 None @ [Some Timeout, Some Lost], s5)"
    by (simp add: run_loop_append s3(1) s4(1) s5)
  then show "\<exists>s'. run_loop (replicate 100 lost_tick @ [center_tick_late, lost_tick_next])
       (setup_sketch 0) = Some (replicate 100 None @ [Some Timeout, Some Lost], s')"
    by blast
  show "tick_line_state center_tick_late = 4" "tick_line_state lost_tick_next = 0"
    by (rule tick_line_state_values)+
  show "lost_streak (replicate 100 lost_tick @ [center_tick_late, lost_tick_next]) = 1"
    by (simp add: lost_streak_def tick_line_state_values)
qed

text \<open>
  C10. Neither \<open>startEpisode\<close> nor \<open>endEpisode\<close> changes \<open>lostCount\<close>. Scenario: an episode
  that ends as lost on its 101st LOST pass leaves the counter at 101; the next episode
  starts with it (no reading taken yet), and its first LOST pass already ends it as lost.
\<close>

theorem lostCount_not_reset:
  assumes "reachable s" "totalDist s = 0" "tasksComplete s = 0" "lostCount s = 0"
    and "length losts = 100" "list_all (scenario_tick (startTime s) 0) losts"
    and "scenario_tick (startTime s) 0 final"
    and "scenario_tick (in_millis_start final) 0 next"
  shows "(\<forall>now t. lostCount (startEpisode now t) = lostCount t \<and>
              lostCount (endEpisode now t) = lostCount t) \<and>
     (\<exists>s1 s2. run_loop (losts @ [final]) s = Some (replicate 100 None @ [Some Lost], s1) \<and>
        startTime s1 = in_millis_start final \<and> readings s1 = 0 \<and> lostCount s1 = 101 \<and>
        loop next s1 = Some (Some Lost, s2))"
proof (intro conjI allI)
  fix now and t :: robot
  show "lostCount (startEpisode now t) = lostCount t"
    by (simp add: startEpisode_def)
  show "lostCount (endEpisode now t) = lostCount t"
    by (rule endEpisode_fields)
next
  have st: "standing s" using assms(1-3) by (rule reachable_standing)
  from run_loop_lost [OF st, of losts] assms(4-6) obtain s3
    where s3: "run_loop losts s = Some (replicate 100 None, s3)" "standing s3"
      "startTime s3 = startTime s" "unat (lostCount s3) = 100"
    by auto
  from loop_lost_end [OF s3(2), of final] assms(7) obtain s4
    where s4: "standing s4" "lostCount s4 = lostCount s3 + 1"
      "loop final s3 = Some (Some Lost, endEpisode (in_millis_start final) s4)"
    by (auto simp: s3(3,4))
  define s1 where "s1 = endEpisode (in_millis_start final) s4"
  have "lostCount s3 = 100"
    using s3(4) by (simp add: word_unat_eq_iff)
  then have l1: "lostCount s1 = 101"
    by (simp add: s1_def endEpisode_fields s4(2))
  have f1: "startTime s1 = in_millis_start final" "readings s1 = 0"
    by (simp_all add: s1_def endEpisode_fields)
  from s4(1) have "robot_inv s4" by (simp add: standing_def)
  then have st1: "standing s1" unfolding s1_def by (rule standing_endEpisode)
  from loop_lost_end [OF st1, of "next"] assms(8) obtain s2
    where s2: "loop next s1 = Some (Some Lost, s2)"
    by (auto simp: f1 l1)
  have "run_loop (losts @ [final]) s = Some (replicate 100 None @ [Some Lost], s1)"
    by (simp add: run_loop_append s3(1) s4(3) s1_def)
  with f1 l1 s2 show "\<exists>s1 s2. run_loop (losts @ [final]) s
          = Some (replicate 100 None @ [Some Lost], s1) \<and>
        startTime s1 = in_millis_start final \<and> readings s1 = 0 \<and> lostCount s1 = 101 \<and>
        loop next s1 = Some (Some Lost, s2)"
    by blast
qed

theorem lostCount_not_reset_witness:
  "reachable (setup_sketch 0) \<and> totalDist (setup_sketch 0) = 0 \<and>
   tasksComplete (setup_sketch 0) = 0 \<and> lostCount (setup_sketch 0) = 0 \<and>
   length (replicate 100 lost_tick) = 100 \<and>
   list_all (scenario_tick (startTime (setup_sketch 0)) 0) (replicate 100 lost_tick) \<and>
   scenario_tick (startTime (setup_sketch 0)) 0 lost_tick \<and>
   scenario_tick (in_millis_start lost_tick) 0 lost_tick_next \<and>
   (\<exists>s1 s2. run_loop (replicate 100 lost_tick @ [lost_tick]) (setup_sketch 0)
        = Some (replicate 100 None @ [Some Lost], s1) \<and>
      startTime s1 = in_millis_start lost_tick \<and> readings s1 = 0 \<and> lostCount s1 = 101 \<and>
      loop lost_tick_next s1 = Some (Some Lost, s2))"
proof -
  have h: "reachable (setup_sketch 0)" "totalDist (setup_sketch 0) = 0"
    "tasksComplete (setup_sketch 0) = 0" "lostCount (setup_sketch 0) = 0"
    "length (replicate 100 lost_tick) = 100"
    "list_all (scenario_tick (startTime (setup_sketch 0)) 0) (replicate 100 lost_tick)"
    "scenario_tick (startTime (setup_sketch 0)) 0 lost_tick"
    "scenario_tick (in_millis_start lost_tick) 0 lost_tick_next"
    by (simp_all add: reachable_start setup_sketch_fields scenario_tick_lost
        scenario_tick_lost_next list_all_iff)
  from lostCount_not_reset [OF h] h show ?thesis
    by blast
qed

end
